theory Spec2Isabelle
  imports Main "HOL-Library.Word"
begin

unbundle bit_operations_syntax

section \<open>C strings and the C library functions used by util.c\<close>

text \<open>
  A C string is modelled by the list of its characters before the terminating NUL.
  Reading \<open>*p\<close> at the end of the list yields NUL, and \<open>++p\<close> is \<open>tl\<close>.
\<close>

definition NUL :: char where
  "NUL = CHR 0x00"

fun peek :: "string \<Rightarrow> char" where
  "peek [] = NUL"
| "peek (c # p) = c"

definition code :: "char \<Rightarrow> nat" where
  "code c = of_char c"

text \<open>\<open><ctype.h>\<close> in the C locale.\<close>

definition isspace :: "char \<Rightarrow> bool" where
  "isspace c = (code c = 32 \<or> (9 \<le> code c \<and> code c \<le> 13))"

definition isxdigit :: "char \<Rightarrow> bool" where
  "isxdigit c = ((48 \<le> code c \<and> code c \<le> 57) \<or> (65 \<le> code c \<and> code c \<le> 70)
                 \<or> (97 \<le> code c \<and> code c \<le> 102))"

text \<open>
  The digit value of a character in \<open>strtol\<close>-family functions (ISO C 7.22.1.4):
  \<open>0-9\<close>, then letters of either case for 10 to 35.
\<close>

definition digit_num :: "char \<Rightarrow> nat" where
  "digit_num c =
     (if 48 \<le> code c \<and> code c \<le> 57 then code c - 48
      else if 97 \<le> code c \<and> code c \<le> 122 then code c - 87
      else if 65 \<le> code c \<and> code c \<le> 90 then code c - 55
      else 36)"

definition digit_ok :: "nat \<Rightarrow> char \<Rightarrow> bool" where
  "digit_ok base c = (digit_num c < base)"

definition digits_value :: "nat \<Rightarrow> string \<Rightarrow> nat" where
  "digits_value base ds = foldl (\<lambda>acc c. acc * base + digit_num c) 0 ds"

text \<open>
  The subject sequence of \<open>strtoll\<close>/\<open>strtoull\<close>: white space, an optional sign, for
  base 0 or 16 an optional \<open>0x\<close>/\<open>0X\<close> (only when a hexadecimal digit follows), then the
  longest run of digits of the base. Base 0 detects the base from the prefix. The result
  is \<open>None\<close> when there is no digit (no conversion), otherwise the sign, the exact
  magnitude and the unconsumed rest.
\<close>

definition has_hex_prefix :: "nat \<Rightarrow> string \<Rightarrow> bool" where
  "has_hex_prefix base s =
     ((base = 0 \<or> base = 16) \<and> peek s = CHR ''0''
      \<and> (peek (tl s) = CHR ''x'' \<or> peek (tl s) = CHR ''X'')
      \<and> isxdigit (peek (tl (tl s))))"

definition scan_base :: "nat \<Rightarrow> string \<Rightarrow> nat" where
  "scan_base base s =
     (if base \<noteq> 0 then base
      else if has_hex_prefix base s then 16
      else if peek s = CHR ''0'' then 8
      else 10)"

definition strto_scan :: "nat \<Rightarrow> string \<Rightarrow> (bool \<times> nat \<times> string) option" where
  "strto_scan base nptr =
     (let s1 = dropWhile isspace nptr;
          neg = (peek s1 = CHR ''-'');
          s2 = (if peek s1 = CHR ''-'' \<or> peek s1 = CHR ''+'' then tl s1 else s1);
          b = scan_base base s2;
          s3 = (if has_hex_prefix base s2 then tl (tl s2) else s2);
          ds = takeWhile (digit_ok b) s3
      in if ds = [] then None
         else Some (neg, digits_value b ds, dropWhile (digit_ok b) s3))"

type_synonym errno = nat

definition ERANGE :: errno where
  "ERANGE = 34"

text \<open>
  \<open>strtoll(nptr, &endptr, base)\<close>: the value (a \<open>long long\<close>, read with \<open>sint\<close>), the end
  pointer and \<open>errno\<close> afterwards. Out of range, the value is \<open>LLONG_MIN\<close> or \<open>LLONG_MAX\<close>
  and \<open>errno\<close> is \<open>ERANGE\<close>; with no conversion the end pointer is \<open>nptr\<close>.
\<close>

definition strtoll :: "string \<Rightarrow> nat \<Rightarrow> errno \<Rightarrow> 64 word \<times> string \<times> errno" where
  "strtoll nptr base en =
     (case strto_scan base nptr of
        None \<Rightarrow> (0, nptr, en)
      | Some (neg, v, endptr) \<Rightarrow>
          if neg then (if 2 ^ 63 < v then (2 ^ 63, endptr, ERANGE) else (- of_nat v, endptr, en))
          else (if 2 ^ 63 \<le> v then (2 ^ 63 - 1, endptr, ERANGE) else (of_nat v, endptr, en)))"

text \<open>
  \<open>strtoull(nptr, NULL, base)\<close>: the value only. Out of range it is \<open>ULLONG_MAX\<close>; a
  minus sign negates the value in the unsigned type.
\<close>

definition strtoull :: "string \<Rightarrow> nat \<Rightarrow> 64 word" where
  "strtoull nptr base =
     (case strto_scan base nptr of
        None \<Rightarrow> 0
      | Some (neg, v, endptr) \<Rightarrow>
          if 2 ^ 64 \<le> v then - 1
          else if neg then - of_nat v
          else of_nat v)"

section \<open>util.c: the numeric literal codec\<close>

subsection \<open>\<open>libconfig_parse_integer\<close>\<close>

text \<open>
  \<open>errno\<close> is saved, cleared, and restored on success; on failure it is left cleared.
  The result is the value and \<open>*ok\<close>.
\<close>

definition libconfig_parse_integer :: "string \<Rightarrow> errno \<Rightarrow> (64 word \<times> bool) \<times> errno" where
  "libconfig_parse_integer s en =
     (let errsave = en;
          (llval, endptr, en1) = strtoll s 0 0
      in if peek endptr \<noteq> NUL \<or> en1 \<noteq> 0 then ((0, False), 0)
         else ((llval, True), errsave))"

subsection \<open>\<open>libconfig_parse_hex64\<close> and \<open>libconfig_parse_bin64\<close>\<close>

text \<open>
  Both functions have two bodies, selected by the preprocessor symbol \<open>__MINGW32__\<close>,
  which is a parameter of the model: a hand-written loop under MinGW, \<open>strtoull\<close>
  elsewhere.
\<close>

definition hex_nibble :: "char \<Rightarrow> 64 word" where
  "hex_nibble c =
     (if code c < 65 then word_of_nat (code c) AND 0xF else 9 + (word_of_nat (code c) AND 0x7))"

fun hex64_loop :: "string \<Rightarrow> 64 word \<Rightarrow> 64 word" where
  "hex64_loop [] val = val"
| "hex64_loop (c # p) val =
     (if isxdigit c then hex64_loop p (push_bit 4 val OR hex_nibble c) else val)"

definition libconfig_parse_hex64 :: "bool \<Rightarrow> string \<Rightarrow> 64 word" where
  "libconfig_parse_hex64 mingw32 s =
     (if mingw32 then
        (if peek s \<noteq> CHR ''0'' then 0
         else if peek (tl s) \<noteq> CHR ''x'' \<and> peek (tl s) \<noteq> CHR ''X'' then 0
         else hex64_loop (tl (tl s)) 0)
      else strtoull s 16)"

fun bin64_loop :: "string \<Rightarrow> 64 word \<Rightarrow> 64 word" where
  "bin64_loop [] val = val"
| "bin64_loop (c # p) val =
     (if c = CHR ''0'' \<or> c = CHR ''1''
      then bin64_loop p (push_bit 1 val OR (if c = CHR ''1'' then 1 else 0))
      else val)"

text \<open>
  Outside MinGW the first two bytes are skipped without being looked at; for a string
  shorter than two characters \<open>s + 2\<close> points past the terminator, and the result is
  \<open>None\<close>.
\<close>

definition libconfig_parse_bin64 :: "bool \<Rightarrow> string \<Rightarrow> 64 word option" where
  "libconfig_parse_bin64 mingw32 s =
     (if mingw32 then
        (if peek s \<noteq> CHR ''0'' then Some 0
         else if peek (tl s) \<noteq> CHR ''b'' \<and> peek (tl s) \<noteq> CHR ''B'' then Some 0
         else Some (bin64_loop (tl (tl s)) 0))
      else if length s < 2 then None
      else Some (strtoull (drop 2 s) 2))"


subsection \<open>Notions used in the statements about the parsers\<close>

definition begins_with :: "string \<Rightarrow> string \<Rightarrow> bool" where
  "begins_with p s = (take (length p) s = p)"


text \<open>
  For \<open>libconfig_parse_integer\<close>: the scan of \<open>strtoll\<close> with base 0 reaches the end of
  the text, and \<open>strtoll\<close> reports a range error.
\<close>

definition consumed_all :: "string \<Rightarrow> bool" where
  "consumed_all s = (peek (fst (snd (strtoll s 0 0))) = NUL)"

definition range_error :: "string \<Rightarrow> bool" where
  "range_error s = (snd (snd (strtoll s 0 0)) = ERANGE)"


subsection \<open>\<open>libconfig_format_double\<close>\<close>

text \<open>
  The text that \<open>snprintf\<close> produces for a \<open>double\<close> under \<open>%.*g\<close> (\<open>sci_ok\<close>) or \<open>%.*f\<close>
  is a parameter \<open>render\<close> of the model; the type of the value is left open. The call
  \<open>snprintf(buf, buflen - 3, ...)\<close> keeps at most \<open>buflen - 4\<close> characters of it. A buffer
  of fewer than 4 bytes does not hold the result (\<open>buflen - 3\<close> is then 0 or wraps
  around), which is \<open>None\<close> in the model.

  \<open>strchr\<close> finds the first occurrence; the loop that removes trailing zeros runs on the
  indices \<open>p\<close> of the decimal point and \<open>q\<close> of the last character, and writing NUL at
  \<open>q\<close> cuts the string there.
\<close>

definition strchr :: "string \<Rightarrow> char \<Rightarrow> nat option" where
  "strchr buf c = (if c \<in> set buf then Some (length (takeWhile (\<lambda>x. x \<noteq> c) buf)) else None)"

function strip_zeros :: "string \<Rightarrow> nat \<Rightarrow> nat \<Rightarrow> string" where
  "strip_zeros buf p q =
     (if p + 1 < q then
        (if buf ! q = CHR ''0'' then strip_zeros (take q buf) p (q - 1) else buf)
      else buf)"
  by pat_completeness auto
termination
  by (relation "measure (\<lambda>(buf, p, q). q)") auto

text \<open>The part of the function after \<open>snprintf\<close>, on the text in the buffer.\<close>

definition format_double_fixup :: "string \<Rightarrow> string" where
  "format_double_fixup buf =
     (case strchr buf (CHR ''e'') of
        Some p \<Rightarrow> buf
      | None \<Rightarrow>
         (case strchr buf (CHR ''.'') of
            None \<Rightarrow> buf @ ''.0''
          | Some p \<Rightarrow> strip_zeros buf p (length buf - 1)))"

definition libconfig_format_double ::
  "(bool \<Rightarrow> int \<Rightarrow> 'd \<Rightarrow> string) \<Rightarrow> 'd \<Rightarrow> int \<Rightarrow> bool \<Rightarrow> nat \<Rightarrow> string option" where
  "libconfig_format_double render val precision sci_ok buflen =
     (if buflen < 4 then None
      else Some (format_double_fixup (take (buflen - 4) (render sci_ok precision val))))"

subsection \<open>\<open>clzl\<close> and \<open>libconfig_format_bin\<close>\<close>

text \<open>
  Under \<open>__GNUC__\<close>, \<open>clzl\<close> is the compiler's \<open>__builtin_clzl\<close>: the number of leading
  zero bits of its argument, not defined for 0 (\<open>None\<close>). Its parameter is an
  \<open>unsigned long\<close>, whose width \<open>long_bits\<close> depends on the target: 64 on LP64, 32 on
  MinGW and on ILP32. The \<open>int64_t\<close> that \<open>libconfig_format_bin\<close> passes is converted to
  that type, which keeps its low \<open>long_bits\<close> bits, and the zeros are counted from bit
  \<open>long_bits - 1\<close> downwards.
\<close>

fun leading_zeros :: "nat \<Rightarrow> 64 word \<Rightarrow> nat" where
  "leading_zeros n x =
     (if n = 0 then 0 else if bit x (n - 1) then 0 else 1 + leading_zeros (n - 1) x)"

definition builtin_clzl :: "nat \<Rightarrow> 64 word \<Rightarrow> nat option" where
  "builtin_clzl long_bits val =
     (let x = take_bit long_bits val
      in if x = 0 then None else Some (leading_zeros long_bits x))"

text \<open>
  Otherwise \<open>clzl\<close> is the loop of the file, on an \<open>int64_t\<close> mask that starts at the
  sign bit and is shifted right arithmetically. For the value 0 the mask never becomes
  0 and the loop does not end: the result is \<open>None\<close>.
\<close>

partial_function (option) clzl_loop :: "64 word \<Rightarrow> 64 word \<Rightarrow> nat \<Rightarrow> nat option" where
  "clzl_loop val check leading =
     (if val AND check = 0 \<and> check \<noteq> 0
      then clzl_loop val (signed_drop_bit 1 check) (leading + 1)
      else Some leading)"

declare clzl_loop.simps [code]

definition clzl :: "bool \<Rightarrow> nat \<Rightarrow> 64 word \<Rightarrow> nat option" where
  "clzl gnuc long_bits val =
     (if gnuc then builtin_clzl long_bits val else clzl_loop val (push_bit 63 1) 0)"

text \<open>
  The loop of \<open>libconfig_format_bin\<close>; the result is the characters written to
  \<open>buf[i]\<close>, \<open>buf[i+1]\<close>, ... before the terminator. \<open>lim\<close> is \<open>buflen - 1\<close>.
\<close>

function format_bin_loop :: "64 word \<Rightarrow> nat \<Rightarrow> nat \<Rightarrow> nat \<Rightarrow> string" where
  "format_bin_loop val lim c i =
     (if c < 64 \<and> i < lim
      then (if val AND push_bit (63 - c) 1 \<noteq> 0 then CHR ''1'' else CHR ''0'')
             # format_bin_loop val lim (c + 1) (i + 1)
      else [])"
  by pat_completeness auto
termination
  by (relation "measure (\<lambda>(val, lim, c, i). 64 - c)") auto

text \<open>
  \<open>buflen\<close> is a \<open>size_t\<close>. With \<open>buflen = 0\<close> the terminator itself is written outside
  the buffer, which is \<open>None\<close> in the model.
\<close>

definition libconfig_format_bin :: "bool \<Rightarrow> nat \<Rightarrow> 64 word \<Rightarrow> nat \<Rightarrow> string option" where
  "libconfig_format_bin gnuc long_bits val buflen =
     (if buflen = 0 then None
      else (case clzl gnuc long_bits val of
              None \<Rightarrow> None
            | Some c \<Rightarrow> Some (format_bin_loop val (buflen - 1) c 0)))"

subsection \<open>Notions used in the statements about \<open>libconfig_format_bin\<close>\<close>

text \<open>The bits \<open>n - 1\<close> down to 0 of a value as characters, most significant first.\<close>

definition bitchar :: "64 word \<Rightarrow> nat \<Rightarrow> char" where
  "bitchar val k = (if bit val k then CHR ''1'' else CHR ''0'')"

definition bits_from :: "64 word \<Rightarrow> nat \<Rightarrow> string" where
  "bits_from val n = map (bitchar val) (rev [0..<n])"


section \<open>The setting tree\<close>

text \<open>
  Modelled from the spec: the setting node and the tree container that
  \<open>copy_setting.c\<close> calls (\<open>struct config_setting_t\<close> and the \<open>config_setting_*\<close>
  functions, declared in \<open>libconfig.h\<close> and defined in \<open>libconfig.c\<close>, neither of
  which is among the sources). A node has a type, a format, an optional name, a
  scalar value, an ordered sequence of children and a parent link. Nodes live in a
  store, a growing table in which a pointer is an index and \<open>NULL\<close> is \<open>None\<close>; a
  new node is appended to the table.
\<close>

datatype setting_type =
  TypeNone | TypeInt | TypeInt64 | TypeFloat | TypeString | TypeBoolean
  | TypeGroup | TypeArray | TypeList

datatype setting_format = FormatDefault | FormatHex

text \<open>A \<open>double\<close> is carried as its 64-bit pattern; the copy only moves it.\<close>

datatype setting_value =
  NoValue | IntValue "32 word" | Int64Value "64 word" | FloatValue "64 word"
  | StringValue string | BoolValue bool

record setting =
  s_name :: "string option"
  s_type :: setting_type
  s_format :: setting_format
  s_value :: setting_value
  s_children :: "nat list"
  s_parent :: "nat option"

type_synonym store = "setting list"

definition node :: "store \<Rightarrow> nat \<Rightarrow> setting option" where
  "node st a = (if a < length st then Some (st ! a) else None)"

subsection \<open>Type predicates and getters\<close>

text \<open>
  Modelled from the spec: the type predicates and the typed getters of the container. A
  getter called on a node of another type gives the zero of its type.
\<close>

definition config_setting_is_group :: "setting \<Rightarrow> bool" where
  "config_setting_is_group s = (s_type s = TypeGroup)"

definition config_setting_is_array :: "setting \<Rightarrow> bool" where
  "config_setting_is_array s = (s_type s = TypeArray)"

definition config_setting_is_list :: "setting \<Rightarrow> bool" where
  "config_setting_is_list s = (s_type s = TypeList)"

definition config_setting_is_aggregate :: "setting \<Rightarrow> bool" where
  "config_setting_is_aggregate s =
     (s_type s = TypeGroup \<or> s_type s = TypeArray \<or> s_type s = TypeList)"

definition is_scalar_type :: "setting_type \<Rightarrow> bool" where
  "is_scalar_type ty =
     (ty = TypeInt \<or> ty = TypeInt64 \<or> ty = TypeFloat \<or> ty = TypeString \<or> ty = TypeBoolean)"

text \<open>Modelled from the spec: only an aggregate has children.\<close>

definition kids :: "setting \<Rightarrow> nat list" where
  "kids s = (if config_setting_is_aggregate s then s_children s else [])"

definition config_setting_length :: "setting \<Rightarrow> nat" where
  "config_setting_length s = length (kids s)"

definition config_setting_get_elem :: "setting \<Rightarrow> nat \<Rightarrow> nat option" where
  "config_setting_get_elem s i = (if i < length (kids s) then Some (kids s ! i) else None)"

definition config_setting_get_int :: "setting \<Rightarrow> 32 word" where
  "config_setting_get_int s = (case s_value s of IntValue v \<Rightarrow> v | _ \<Rightarrow> 0)"

definition config_setting_get_int64 :: "setting \<Rightarrow> 64 word" where
  "config_setting_get_int64 s = (case s_value s of Int64Value v \<Rightarrow> v | _ \<Rightarrow> 0)"

definition config_setting_get_float :: "setting \<Rightarrow> 64 word" where
  "config_setting_get_float s = (case s_value s of FloatValue v \<Rightarrow> v | _ \<Rightarrow> 0)"

definition config_setting_get_string :: "setting \<Rightarrow> string" where
  "config_setting_get_string s = (case s_value s of StringValue v \<Rightarrow> v | _ \<Rightarrow> [])"

definition config_setting_get_bool :: "setting \<Rightarrow> bool" where
  "config_setting_get_bool s = (case s_value s of BoolValue v \<Rightarrow> v | _ \<Rightarrow> False)"

subsection \<open>Creating nodes\<close>

text \<open>
  Modelled from the spec: when a creation is refused. \<open>child_settings\<close> are the
  children of a node that are nodes of the store. A creation is refused where it
  would break an invariant of the data model: a child under a scalar, an aggregate or
  a differently typed scalar in an array, a second child of the same name in a group.
\<close>

definition child_settings :: "store \<Rightarrow> setting \<Rightarrow> setting list" where
  "child_settings st p = map (\<lambda>c. st ! c) (filter (\<lambda>c. c < length st) (kids p))"

definition can_add :: "store \<Rightarrow> setting \<Rightarrow> string option \<Rightarrow> setting_type \<Rightarrow> bool" where
  "can_add st p nm ty =
     (config_setting_is_aggregate p
      \<and> (if config_setting_is_array p
          then is_scalar_type ty \<and> list_all (\<lambda>c. s_type c = ty) (child_settings st p)
          else True)
      \<and> (if config_setting_is_group p \<and> nm \<noteq> None
          then list_all (\<lambda>c. s_name c \<noteq> nm) (child_settings st p)
          else True))"

definition default_value :: "setting_type \<Rightarrow> setting_value" where
  "default_value ty =
     (case ty of
        TypeInt \<Rightarrow> IntValue 0
      | TypeInt64 \<Rightarrow> Int64Value 0
      | TypeFloat \<Rightarrow> FloatValue 0
      | TypeString \<Rightarrow> StringValue []
      | TypeBoolean \<Rightarrow> BoolValue False
      | _ \<Rightarrow> NoValue)"

text \<open>
  Modelled from the spec: the new node is the last child of its parent and stands at the end of the store. It
  keeps the name only under a group: children of a list or an array have no name.
\<close>

definition new_child :: "store \<Rightarrow> nat \<Rightarrow> setting \<Rightarrow> string option \<Rightarrow> setting_type \<Rightarrow> setting_value \<Rightarrow> store" where
  "new_child st pa p nm ty v =
     st[pa := p\<lparr>s_children := s_children p @ [length st]\<rparr>]
       @ [\<lparr>s_name = (if config_setting_is_group p then nm else None), s_type = ty,
            s_format = FormatDefault, s_value = v, s_children = [], s_parent = Some pa\<rparr>]"

text \<open>
  Modelled from the spec: \<open>config_setting_add(parent, name, type)\<close>. The outer \<open>None\<close> is a call on a parent
  that is not a node, which the spec does not define; \<open>Some (None, st)\<close> is a refused
  creation, which returns \<open>NULL\<close> and leaves the store as it is.
\<close>

definition config_setting_add ::
  "store \<Rightarrow> nat option \<Rightarrow> string option \<Rightarrow> setting_type \<Rightarrow> (nat option \<times> store) option" where
  "config_setting_add st parent nm ty =
     (case parent of
        None \<Rightarrow> None
      | Some pa \<Rightarrow>
         (case node st pa of
            None \<Rightarrow> None
          | Some p \<Rightarrow>
             if can_add st p nm ty
             then Some (Some (length st), new_child st pa p nm ty (default_value ty))
             else Some (None, st)))"

text \<open>
  Modelled from the spec: \<open>config_setting_set_int_elem(parent, -1, value)\<close> and its siblings: the copy calls
  them with index \<open>-1\<close> only, which appends a new element to a list or an array.
\<close>

definition append_elem ::
  "store \<Rightarrow> nat option \<Rightarrow> setting_type \<Rightarrow> setting_value \<Rightarrow> (nat option \<times> store) option" where
  "append_elem st parent ty v =
     (case parent of
        None \<Rightarrow> None
      | Some pa \<Rightarrow>
         (case node st pa of
            None \<Rightarrow> None
          | Some p \<Rightarrow>
             if (config_setting_is_list p \<or> config_setting_is_array p) \<and> can_add st p None ty
             then Some (Some (length st), new_child st pa p None ty v)
             else Some (None, st)))"

definition config_setting_set_int_elem :: "store \<Rightarrow> nat option \<Rightarrow> 32 word \<Rightarrow> (nat option \<times> store) option" where
  "config_setting_set_int_elem st parent v = append_elem st parent TypeInt (IntValue v)"

definition config_setting_set_int64_elem :: "store \<Rightarrow> nat option \<Rightarrow> 64 word \<Rightarrow> (nat option \<times> store) option" where
  "config_setting_set_int64_elem st parent v = append_elem st parent TypeInt64 (Int64Value v)"

definition config_setting_set_float_elem :: "store \<Rightarrow> nat option \<Rightarrow> 64 word \<Rightarrow> (nat option \<times> store) option" where
  "config_setting_set_float_elem st parent v = append_elem st parent TypeFloat (FloatValue v)"

definition config_setting_set_string_elem :: "store \<Rightarrow> nat option \<Rightarrow> string \<Rightarrow> (nat option \<times> store) option" where
  "config_setting_set_string_elem st parent v = append_elem st parent TypeString (StringValue v)"

definition config_setting_set_bool_elem :: "store \<Rightarrow> nat option \<Rightarrow> bool \<Rightarrow> (nat option \<times> store) option" where
  "config_setting_set_bool_elem st parent v = append_elem st parent TypeBoolean (BoolValue v)"

subsection \<open>Setters\<close>

text \<open>
  Modelled from the spec: a setter writes the value of a node of its own type and leaves any other node as it
  is; \<open>None\<close> is a call on a pointer that is not a node. The format is kept by integer
  nodes only.
\<close>

definition set_value :: "store \<Rightarrow> nat option \<Rightarrow> setting_type \<Rightarrow> setting_value \<Rightarrow> store option" where
  "set_value st set' ty v =
     (case set' of
        None \<Rightarrow> None
      | Some a \<Rightarrow>
         (case node st a of
            None \<Rightarrow> None
          | Some s \<Rightarrow> Some (if s_type s = ty then st[a := s\<lparr>s_value := v\<rparr>] else st)))"

definition config_setting_set_int :: "store \<Rightarrow> nat option \<Rightarrow> 32 word \<Rightarrow> store option" where
  "config_setting_set_int st set' v = set_value st set' TypeInt (IntValue v)"

definition config_setting_set_int64 :: "store \<Rightarrow> nat option \<Rightarrow> 64 word \<Rightarrow> store option" where
  "config_setting_set_int64 st set' v = set_value st set' TypeInt64 (Int64Value v)"

definition config_setting_set_float :: "store \<Rightarrow> nat option \<Rightarrow> 64 word \<Rightarrow> store option" where
  "config_setting_set_float st set' v = set_value st set' TypeFloat (FloatValue v)"

definition config_setting_set_string :: "store \<Rightarrow> nat option \<Rightarrow> string \<Rightarrow> store option" where
  "config_setting_set_string st set' v = set_value st set' TypeString (StringValue v)"

definition config_setting_set_bool :: "store \<Rightarrow> nat option \<Rightarrow> bool \<Rightarrow> store option" where
  "config_setting_set_bool st set' v = set_value st set' TypeBoolean (BoolValue v)"

definition config_setting_set_format :: "store \<Rightarrow> nat option \<Rightarrow> setting_format \<Rightarrow> store option" where
  "config_setting_set_format st set' fmt =
     (case set' of
        None \<Rightarrow> None
      | Some a \<Rightarrow>
         (case node st a of
            None \<Rightarrow> None
          | Some s \<Rightarrow>
             Some (if s_type s = TypeInt \<or> s_type s = TypeInt64
                   then st[a := s\<lparr>s_format := fmt\<rparr>] else st)))"

section \<open>copy_setting.c: the setting tree copier\<close>

text \<open>
  The four functions of the file, in state-passing style over the store. They call each
  other without a bound on the depth, so the model carries a fuel that every call
  consumes; \<open>None\<close> is a run that did not return: out of fuel, or a container function
  called on a pointer that is not a node. The source node is read again from the
  current store wherever the file reads it after a call that changes the store.
\<close>

fun config_setting_copy_simple :: "nat \<Rightarrow> store \<Rightarrow> nat option \<Rightarrow> nat \<Rightarrow> store option"
  and config_setting_copy_elem :: "nat \<Rightarrow> store \<Rightarrow> nat option \<Rightarrow> nat \<Rightarrow> store option"
  and config_setting_copy_aggregate :: "nat \<Rightarrow> store \<Rightarrow> nat option \<Rightarrow> nat \<Rightarrow> store option"
  and copy_aggregate_loop :: "nat \<Rightarrow> store \<Rightarrow> nat option \<Rightarrow> nat \<Rightarrow> nat \<Rightarrow> nat \<Rightarrow> store option"
  where
  "config_setting_copy_simple 0 st parent src = None"
| "config_setting_copy_simple (Suc k) st parent src =
     (case node st src of
        None \<Rightarrow> None
      | Some s \<Rightarrow>
         if config_setting_is_aggregate s then config_setting_copy_aggregate k st parent src
         else
           (case config_setting_add st parent (s_name s) (s_type s) of
              None \<Rightarrow> None
            | Some (set', st1) \<Rightarrow>
               (case node st1 src of
                  None \<Rightarrow> None
                | Some s1 \<Rightarrow>
                   if s_type s1 = TypeInt then
                     (case config_setting_set_int st1 set' (config_setting_get_int s1) of
                        None \<Rightarrow> None
                      | Some st2 \<Rightarrow>
                         (case node st2 src of
                            None \<Rightarrow> None
                          | Some s2 \<Rightarrow> config_setting_set_format st2 set' (s_format s2)))
                   else if s_type s1 = TypeInt64 then
                     (case config_setting_set_int64 st1 set' (config_setting_get_int64 s1) of
                        None \<Rightarrow> None
                      | Some st2 \<Rightarrow>
                         (case node st2 src of
                            None \<Rightarrow> None
                          | Some s2 \<Rightarrow> config_setting_set_format st2 set' (s_format s2)))
                   else if s_type s1 = TypeFloat then
                     config_setting_set_float st1 set' (config_setting_get_float s1)
                   else if s_type s1 = TypeString then
                     config_setting_set_string st1 set' (config_setting_get_string s1)
                   else if s_type s1 = TypeBoolean then
                     config_setting_set_bool st1 set' (config_setting_get_bool s1)
                   else Some st1)))"
| "config_setting_copy_elem 0 st parent src = None"
| "config_setting_copy_elem (Suc k) st parent src =
     (case node st src of
        None \<Rightarrow> None
      | Some s \<Rightarrow>
         if config_setting_is_aggregate s then config_setting_copy_aggregate k st parent src
         else if s_type s = TypeInt then
           (case config_setting_set_int_elem st parent (config_setting_get_int s) of
              None \<Rightarrow> None
            | Some (set', st1) \<Rightarrow>
               (case node st1 src of
                  None \<Rightarrow> None
                | Some s1 \<Rightarrow> config_setting_set_format st1 set' (s_format s1)))
         else if s_type s = TypeInt64 then
           (case config_setting_set_int64_elem st parent (config_setting_get_int64 s) of
              None \<Rightarrow> None
            | Some (set', st1) \<Rightarrow>
               (case node st1 src of
                  None \<Rightarrow> None
                | Some s1 \<Rightarrow> config_setting_set_format st1 set' (s_format s1)))
         else if s_type s = TypeFloat then
           map_option snd (config_setting_set_float_elem st parent (config_setting_get_float s))
         else if s_type s = TypeString then
           map_option snd (config_setting_set_string_elem st parent (config_setting_get_string s))
         else if s_type s = TypeBoolean then
           map_option snd (config_setting_set_bool_elem st parent (config_setting_get_bool s))
         else Some st)"
| "config_setting_copy_aggregate 0 st parent src = None"
| "config_setting_copy_aggregate (Suc k) st parent src =
     (case node st src of
        None \<Rightarrow> None
      | Some s \<Rightarrow>
         (case config_setting_add st parent (s_name s) (s_type s) of
            None \<Rightarrow> None
          | Some (newAgg, st1) \<Rightarrow>
             (case node st1 src of
                None \<Rightarrow> None
              | Some s1 \<Rightarrow> copy_aggregate_loop k st1 newAgg src 0 (config_setting_length s1))))"
| "copy_aggregate_loop 0 st newAgg src i n = None"
| "copy_aggregate_loop (Suc k) st newAgg src i n =
     (if i < n then
        (case node st src of
           None \<Rightarrow> None
         | Some s \<Rightarrow>
            (case config_setting_get_elem s i of
               None \<Rightarrow> None
             | Some child \<Rightarrow>
                (case (if config_setting_is_group s
                       then config_setting_copy_simple k st newAgg child
                       else config_setting_copy_elem k st newAgg child) of
                   None \<Rightarrow> None
                 | Some st' \<Rightarrow> copy_aggregate_loop k st' newAgg src (i + 1) n)))
      else Some st)"

definition config_setting_copy :: "nat \<Rightarrow> store \<Rightarrow> nat \<Rightarrow> nat \<Rightarrow> (bool \<times> store) option" where
  "config_setting_copy fuel st parent src =
     (case node st parent of
        None \<Rightarrow> None
      | Some p \<Rightarrow>
         if \<not> config_setting_is_group p \<and> \<not> config_setting_is_list p then Some (False, st)
         else
           (case node st src of
              None \<Rightarrow> None
            | Some s \<Rightarrow>
               map_option (Pair True)
                 (if config_setting_is_aggregate s
                  then config_setting_copy_aggregate fuel st (Some parent) src
                  else config_setting_copy_simple fuel st (Some parent) src)))"

subsection \<open>Notions used in the statements about the copier\<close>

text \<open>
  The subtree below an address, as a value: \<open>repr st a t\<close> holds when the nodes
  reachable from \<open>a\<close> through the children form the finite tree \<open>t\<close>. \<open>reach st a\<close> is
  the set of the addresses of these nodes.
\<close>

datatype tree =
  Tree (t_name: "string option") (t_type: setting_type) (t_format: setting_format)
    (t_value: setting_value) (t_kids: "tree list")

inductive repr :: "store \<Rightarrow> nat \<Rightarrow> tree \<Rightarrow> bool" for st :: store where
  repr_node: "node st a = Some s \<Longrightarrow> list_all2 (repr st) (kids s) ts \<Longrightarrow>
     repr st a (Tree (s_name s) (s_type s) (s_format s) (s_value s) ts)"

inductive_set reach :: "store \<Rightarrow> nat \<Rightarrow> nat set" for st :: store and a :: nat where
  reach_root: "a < length st \<Longrightarrow> a \<in> reach st a"
| reach_kid: "b \<in> reach st a \<Longrightarrow> c \<in> set (kids (st ! b)) \<Longrightarrow> c < length st \<Longrightarrow> c \<in> reach st a"

text \<open>
  What the copier makes of a tree: the root keeps its name only under a group, the
  format is carried over for integer nodes only, and the children of a group are
  cloned with their names, those of a list or an array without.
\<close>

fun clone_of :: "bool \<Rightarrow> tree \<Rightarrow> tree" where
  "clone_of named (Tree nm ty fmt v ts) =
     Tree (if named then nm else None) ty
       (if ty = TypeInt \<or> ty = TypeInt64 then fmt else FormatDefault) v
       (map (clone_of (ty = TypeGroup)) ts)"

text \<open>
  The trees on which no creation is refused during a copy: every value has the form of
  its type (so no node has the unused type \<open>TypeNone\<close>), the children of a group
  have different names, and the children of an array are scalars of one type.
\<close>

fun value_matches :: "setting_type \<Rightarrow> setting_value \<Rightarrow> bool" where
  "value_matches TypeInt (IntValue w) = True"
| "value_matches TypeInt64 (Int64Value w) = True"
| "value_matches TypeFloat (FloatValue w) = True"
| "value_matches TypeString (StringValue w) = True"
| "value_matches TypeBoolean (BoolValue w) = True"
| "value_matches TypeGroup NoValue = True"
| "value_matches TypeArray NoValue = True"
| "value_matches TypeList NoValue = True"
| "value_matches ty v = False"

fun copyable :: "tree \<Rightarrow> bool" where
  "copyable (Tree nm ty fmt v ts) =
     (value_matches ty v
      \<and> (if ty = TypeGroup then distinct (map t_name ts) else True)
      \<and> (if ty = TypeArray
          then list_all (\<lambda>k. is_scalar_type (t_type k) \<and> t_type k = t_type (hd ts)) ts
          else True)
      \<and> list_all copyable ts)"

text \<open>
  The further invariants of the data model: only integer nodes carry a format other
  than the default, and the children of a list or an array have no name.
\<close>

fun well_formed :: "tree \<Rightarrow> bool" where
  "well_formed (Tree nm ty fmt v ts) =
     (copyable (Tree nm ty fmt v ts)
      \<and> (if ty = TypeInt \<or> ty = TypeInt64 then True else fmt = FormatDefault)
      \<and> (if ty = TypeGroup then True else list_all (\<lambda>k. t_name k = None) ts)
      \<and> list_all well_formed ts)"

text \<open>
  Whether a parent node takes a new child with the name and type of the tree \<open>t\<close>: it
  is a group with no child of that name, or a list.
\<close>

definition accepts :: "store \<Rightarrow> setting \<Rightarrow> tree \<Rightarrow> bool" where
  "accepts st p t =
     ((config_setting_is_group p \<or> config_setting_is_list p)
      \<and> can_add st p (t_name t) (t_type t))"

subsection \<open>Notions used in the proofs about the copier\<close>

text \<open>
  \<open>grown parent st st'\<close>: the store \<open>st'\<close> extends \<open>st\<close>, every node of \<open>st\<close> other than
  \<open>parent\<close> is as it was, and \<open>parent\<close> only has new nodes appended to its children.
\<close>

definition grown :: "nat option \<Rightarrow> store \<Rightarrow> store \<Rightarrow> bool" where
  "grown parent st st' =
     (length st \<le> length st'
      \<and> (\<forall>a<length st. Some a \<noteq> parent \<longrightarrow> st' ! a = st ! a)
      \<and> (\<forall>a<length st. Some a = parent \<longrightarrow>
           (\<exists>cs. st' ! a = (st ! a)\<lparr>s_children := s_children (st ! a) @ cs\<rparr>
                 \<and> (\<forall>c\<in>set cs. length st \<le> c))))"

text \<open>\<open>repr_on st A a t\<close>: the subtree below \<open>a\<close> is \<open>t\<close> and lies within the addresses \<open>A\<close>.\<close>

inductive repr_on :: "store \<Rightarrow> nat set \<Rightarrow> nat \<Rightarrow> tree \<Rightarrow> bool" for st :: store and A :: "nat set" where
  repr_on_node: "a \<in> A \<Longrightarrow> node st a = Some s \<Longrightarrow> list_all2 (repr_on st A) (kids s) ts \<Longrightarrow>
     repr_on st A a (Tree (s_name s) (s_type s) (s_format s) (s_value s) ts)"

text \<open>
  \<open>copied st q pn t st'\<close>: from \<open>st\<close> to \<open>st'\<close> the node \<open>q\<close>, which was \<open>pn\<close>, got one new last
  child, at the first new address; the subtree below it is \<open>t\<close> and lies within the new
  addresses; every other node of \<open>st\<close> is as it was.
\<close>

definition copied :: "store \<Rightarrow> nat \<Rightarrow> setting \<Rightarrow> tree \<Rightarrow> store \<Rightarrow> bool" where
  "copied st q pn t st' =
     (length st < length st'
      \<and> st' ! q = pn\<lparr>s_children := s_children pn @ [length st]\<rparr>
      \<and> (\<forall>a<length st. a \<noteq> q \<longrightarrow> st' ! a = st ! a)
      \<and> repr_on st' {length st..<length st'} (length st) t)"

text \<open>
  \<open>returns f st'\<close>: the run \<open>f\<close> returns the store \<open>st'\<close> for every large enough fuel.
\<close>

definition returns :: "(nat \<Rightarrow> store option) \<Rightarrow> store \<Rightarrow> bool" where
  "returns f st' = (\<exists>k0. \<forall>k\<ge>k0. f k = Some st')"

definition is_aggregate_type :: "setting_type \<Rightarrow> bool" where
  "is_aggregate_type ty = (ty = TypeGroup \<or> ty = TypeArray \<or> ty = TypeList)"

text \<open>
  \<open>copy_ok st q pn src t\<close>: each of the three recursive functions, called on the parent \<open>q\<close>
  (which is \<open>pn\<close>) and the source \<open>src\<close> (whose subtree is \<open>t\<close>), returns and has copied
  \<open>clone_of (config_setting_is_group pn) t\<close>; for \<open>config_setting_copy_elem\<close> when the
  parent is a list or an array, for \<open>config_setting_copy_aggregate\<close> when the source is an
  aggregate.
\<close>

definition copy_ok :: "store \<Rightarrow> nat \<Rightarrow> setting \<Rightarrow> nat \<Rightarrow> tree \<Rightarrow> bool" where
  "copy_ok st q pn src t =
     ((\<exists>st'. returns (\<lambda>k. config_setting_copy_simple k st (Some q) src) st'
             \<and> copied st q pn (clone_of (config_setting_is_group pn) t) st')
      \<and> (config_setting_is_list pn \<or> config_setting_is_array pn \<longrightarrow>
          (\<exists>st'. returns (\<lambda>k. config_setting_copy_elem k st (Some q) src) st'
             \<and> copied st q pn (clone_of (config_setting_is_group pn) t) st'))
      \<and> (is_aggregate_type (t_type t) \<longrightarrow>
          (\<exists>st'. returns (\<lambda>k. config_setting_copy_aggregate k st (Some q) src) st'
             \<and> copied st q pn (clone_of (config_setting_is_group pn) t) st')))"

text \<open>A tree without the name of its root.\<close>

definition unnamed :: "tree \<Rightarrow> tree" where
  "unnamed t = Tree None (t_type t) (t_format t) (t_value t) (t_kids t)"

subsection \<open>A store for the examples\<close>

text \<open>
  The root group (0) holds the group \<open>app\<close> (1), with the hexadecimal integer \<open>port\<close> (2)
  and the list \<open>items\<close> (3) of a string (4) and an empty group (5), and three empty
  aggregates: the group \<open>dst\<close> (6), the list \<open>lst\<close> (7) and the array \<open>arr\<close> (8).
\<close>

definition demo_store :: store where
  "demo_store =
     [\<lparr>s_name = None, s_type = TypeGroup, s_format = FormatDefault, s_value = NoValue,
        s_children = [1, 6, 7, 8], s_parent = None\<rparr>,
      \<lparr>s_name = Some ''app'', s_type = TypeGroup, s_format = FormatDefault, s_value = NoValue,
        s_children = [2, 3], s_parent = Some 0\<rparr>,
      \<lparr>s_name = Some ''port'', s_type = TypeInt, s_format = FormatHex, s_value = IntValue 80,
        s_children = [], s_parent = Some 1\<rparr>,
      \<lparr>s_name = Some ''items'', s_type = TypeList, s_format = FormatDefault, s_value = NoValue,
        s_children = [4, 5], s_parent = Some 1\<rparr>,
      \<lparr>s_name = None, s_type = TypeString, s_format = FormatDefault, s_value = StringValue ''a'',
        s_children = [], s_parent = Some 3\<rparr>,
      \<lparr>s_name = None, s_type = TypeGroup, s_format = FormatDefault, s_value = NoValue,
        s_children = [], s_parent = Some 3\<rparr>,
      \<lparr>s_name = Some ''dst'', s_type = TypeGroup, s_format = FormatDefault, s_value = NoValue,
        s_children = [], s_parent = Some 0\<rparr>,
      \<lparr>s_name = Some ''lst'', s_type = TypeList, s_format = FormatDefault, s_value = NoValue,
        s_children = [], s_parent = Some 0\<rparr>,
      \<lparr>s_name = Some ''arr'', s_type = TypeArray, s_format = FormatDefault, s_value = NoValue,
        s_children = [], s_parent = Some 0\<rparr>]"

definition demo_port :: tree where
  "demo_port = Tree (Some ''port'') TypeInt FormatHex (IntValue 80) []"

definition demo_items :: tree where
  "demo_items =
     Tree (Some ''items'') TypeList FormatDefault NoValue
       [Tree None TypeString FormatDefault (StringValue ''a'') [],
        Tree None TypeGroup FormatDefault NoValue []]"

definition demo_app :: tree where
  "demo_app = Tree (Some ''app'') TypeGroup FormatDefault NoValue [demo_port, demo_items]"

text \<open>The store after \<open>port\<close> (2) has been copied into the list \<open>lst\<close> (7).\<close>

definition demo_port_in_lst :: store where
  "demo_port_in_lst =
     demo_store[7 := \<lparr>s_name = Some ''lst'', s_type = TypeList, s_format = FormatDefault,
                      s_value = NoValue, s_children = [9], s_parent = Some 0\<rparr>]
       @ [\<lparr>s_name = None, s_type = TypeInt, s_format = FormatHex, s_value = IntValue 80,
            s_children = [], s_parent = Some 7\<rparr>]"

section \<open>Properties of the literal parsers\<close>

lemmas scan_eval =
  strtoull_def strtoll_def strto_scan_def has_hex_prefix_def scan_base_def isspace_def isxdigit_def code_def digit_ok_def
  digit_num_def digits_value_def NUL_def ERANGE_def

lemma isxdigit_cases:
  "isxdigit c \<Longrightarrow> code c \<in> {48,49,50,51,52,53,54,55,56,57,65,66,67,68,69,70,97,98,99,100,101,102}"
  unfolding isxdigit_def by simp arith

lemma isxdigit_digit_ok: "isxdigit c = digit_ok 16 c"
  unfolding isxdigit_def digit_ok_def digit_num_def by simp arith

lemma hex_nibble_digit: "isxdigit c \<Longrightarrow> hex_nibble c = word_of_nat (digit_num c)"
  using isxdigit_cases [of c] by (auto simp: hex_nibble_def digit_num_def)

lemma digit_num_hex_less: "isxdigit c \<Longrightarrow> digit_num c < 16"
  by (simp add: isxdigit_digit_ok digit_ok_def)

lemma push_or_low:
  fixes v :: "64 word"
  assumes "d < 2 ^ n"
  shows "push_bit n v OR word_of_nat d = v * 2 ^ n + word_of_nat d"
proof -
  have td: "take_bit n d = d"
    using assms by (simp add: take_bit_nat_eq_self_iff)
  have "push_bit n v AND (word_of_nat (take_bit n d) :: 64 word) = 0"
    by (rule bit_eqI) (auto simp: bit_simps)
  then have "push_bit n v + (word_of_nat d :: 64 word) = push_bit n v OR word_of_nat d"
    unfolding td by (rule disjunctive_add_eq_or)
  then show ?thesis
    by (simp add: push_bit_eq_mult)
qed


lemma hex64_loop_digits:
  assumes "list_all isxdigit ds" and "\<not> isxdigit (peek rest)"
  shows "hex64_loop (ds @ rest) (word_of_nat a) =
         word_of_nat (foldl (\<lambda>acc c. acc * 16 + digit_num c) a ds)"
  using assms
proof (induction ds arbitrary: a)
  case Nil
  then show ?case by (cases rest) simp_all
next
  case (Cons c ds)
  have "push_bit 4 (word_of_nat a :: 64 word) OR hex_nibble c = word_of_nat (a * 16 + digit_num c)"
    using Cons.prems(1) push_or_low [of "digit_num c" 4 "word_of_nat a"]
    by (simp add: hex_nibble_digit digit_num_hex_less)
  then have "hex64_loop ((c # ds) @ rest) (word_of_nat a) =
             hex64_loop (ds @ rest) (word_of_nat (a * 16 + digit_num c))"
    using Cons.prems(1) by (simp del: of_nat_add of_nat_mult)
  also have "\<dots> = word_of_nat (foldl (\<lambda>acc c. acc * 16 + digit_num c) (a * 16 + digit_num c) ds)"
    using Cons.prems by (intro Cons.IH) simp_all
  finally show ?case by simp
qed

lemma bin64_loop_digits:
  assumes "list_all (\<lambda>c. c = CHR ''0'' \<or> c = CHR ''1'') ds"
    and "peek rest \<noteq> CHR ''0''" and "peek rest \<noteq> CHR ''1''"
  shows "bin64_loop (ds @ rest) (word_of_nat a) =
         word_of_nat (foldl (\<lambda>acc c. acc * 2 + digit_num c) a ds)"
  using assms
proof (induction ds arbitrary: a)
  case Nil
  then show ?case by (cases rest) simp_all
next
  case (Cons c ds)
  have "push_bit 1 (word_of_nat a :: 64 word) OR (if c = CHR ''1'' then 1 else 0) = word_of_nat (a * 2 + digit_num c)"
    using Cons.prems(1) push_or_low [of "digit_num c" 1 "word_of_nat a"]
    by (auto simp: digit_num_def code_def)
  then have "bin64_loop ((c # ds) @ rest) (word_of_nat a) =
             bin64_loop (ds @ rest) (word_of_nat (a * 2 + digit_num c))"
    using Cons.prems(1) by (simp del: of_nat_add of_nat_mult)
  also have "\<dots> = word_of_nat (foldl (\<lambda>acc c. acc * 2 + digit_num c) (a * 2 + digit_num c) ds)"
    using Cons.prems by (intro Cons.IH) simp_all
  finally show ?case by simp
qed


lemma digits_value_foldl: "foldl (\<lambda>acc c. acc * b + digit_num c) 0 ds = digits_value b ds"
  by (simp add: digits_value_def)

lemma run_then_stop:
  assumes "list_all P ds" and "\<not> P (peek rest)"
  shows "takeWhile P (ds @ rest) = ds" and "dropWhile P (ds @ rest) = rest"
proof -
  have r: "takeWhile P rest = [] \<and> dropWhile P rest = rest"
    using assms(2) by (cases rest) simp_all
  show "takeWhile P (ds @ rest) = ds"
    using assms(1) r by (simp add: takeWhile_append2 list_all_iff)
  show "dropWhile P (ds @ rest) = rest"
    using assms(1) r by (simp add: dropWhile_append2 list_all_iff)
qed

lemma code_eq_iff: "code c = code d \<longleftrightarrow> c = d"
  unfolding code_def by (metis char_of_char)

lemma bit_digit_ok: "digit_ok 2 c = (c = CHR ''0'' \<or> c = CHR ''1'')"
proof -
  have "digit_ok 2 c \<longleftrightarrow> code c = code (CHR ''0'') \<or> code c = code (CHR ''1'')"
    unfolding digit_ok_def digit_num_def by (simp add: code_def) arith
  then show ?thesis
    by (simp only: code_eq_iff)
qed

lemma scan_hex_digits:
  assumes "p = ''0x'' \<or> p = ''0X''" and "list_all isxdigit ds" and "ds \<noteq> []"
    and "\<not> isxdigit (peek rest)" and "base = 0 \<or> base = 16"
  shows "strto_scan base (p @ ds @ rest) = Some (False, digits_value 16 ds, rest)"
proof -
  obtain c cs where ds: "ds = c # cs"
    using assms(3) by (cases ds) auto
  have c: "isxdigit c"
    using assms(2) ds by simp
  have run: "takeWhile (digit_ok 16) (ds @ rest) = ds" "dropWhile (digit_ok 16) (ds @ rest) = rest"
    using run_then_stop [of "digit_ok 16" ds rest] assms(2,4)
    by (simp_all add: isxdigit_digit_ok [abs_def])
  show ?thesis
    using assms(1,5) c run assms(3) unfolding ds
    by (auto simp: strto_scan_def has_hex_prefix_def scan_base_def isspace_def code_def Let_def)
qed

lemma scan_bin_digits:
  assumes "list_all (\<lambda>c. c = CHR ''0'' \<or> c = CHR ''1'') ds" and "ds \<noteq> []"
    and "peek rest \<noteq> CHR ''0''" and "peek rest \<noteq> CHR ''1''"
  shows "strto_scan 2 (ds @ rest) = Some (False, digits_value 2 ds, rest)"
proof -
  obtain c cs where ds: "ds = c # cs"
    using assms(2) by (cases ds) auto
  have c: "c = CHR ''0'' \<or> c = CHR ''1''"
    using assms(1) ds by simp
  have run: "takeWhile (digit_ok 2) (ds @ rest) = ds" "dropWhile (digit_ok 2) (ds @ rest) = rest"
    using run_then_stop [of "digit_ok 2" ds rest] assms(1,3,4)
    by (simp_all add: bit_digit_ok [abs_def])
  show ?thesis
    using c run assms(2) unfolding ds
    by (auto simp: strto_scan_def has_hex_prefix_def scan_base_def isspace_def code_def Let_def)
qed


lemma mingw_hex_no_prefix:
  assumes "\<not> begins_with ''0x'' s" and "\<not> begins_with ''0X'' s"
  shows "libconfig_parse_hex64 True s = 0"
proof (cases s)
  case Nil
  then show ?thesis by (simp add: libconfig_parse_hex64_def NUL_def)
next
  case (Cons a t)
  then show ?thesis
    using assms by (cases t) (auto simp: libconfig_parse_hex64_def begins_with_def NUL_def)
qed

lemma mingw_hex_digits:
  assumes "p = ''0x'' \<or> p = ''0X''" and "list_all isxdigit ds" and "\<not> isxdigit (peek rest)"
  shows "libconfig_parse_hex64 True (p @ ds @ rest) = word_of_nat (digits_value 16 ds)"
  using assms hex64_loop_digits [of ds rest 0]
  by (auto simp: libconfig_parse_hex64_def digits_value_foldl)

lemma mingw_bin_no_prefix:
  assumes "\<not> begins_with ''0b'' s" and "\<not> begins_with ''0B'' s"
  shows "libconfig_parse_bin64 True s = Some 0"
proof (cases s)
  case Nil
  then show ?thesis by (simp add: libconfig_parse_bin64_def NUL_def)
next
  case (Cons a t)
  then show ?thesis
    using assms by (cases t) (auto simp: libconfig_parse_bin64_def begins_with_def NUL_def)
qed

lemma mingw_bin_digits:
  assumes "p = ''0b'' \<or> p = ''0B''" and "list_all (\<lambda>c. c = CHR ''0'' \<or> c = CHR ''1'') ds"
    and "peek rest \<noteq> CHR ''0''" and "peek rest \<noteq> CHR ''1''"
  shows "libconfig_parse_bin64 True (p @ ds @ rest) = Some (word_of_nat (digits_value 2 ds))"
  using assms bin64_loop_digits [of ds rest 0]
  by (auto simp: libconfig_parse_bin64_def digits_value_foldl)

lemma libc_hex_overflow:
  assumes "p = ''0x'' \<or> p = ''0X''" and "list_all isxdigit ds" and "\<not> isxdigit (peek rest)"
    and "2 ^ 64 \<le> digits_value 16 ds"
  shows "libconfig_parse_hex64 False (p @ ds @ rest) = - 1"
proof -
  have "ds \<noteq> []"
    using assms(4) by (auto simp: digits_value_def)
  then show ?thesis
    using scan_hex_digits [OF assms(1,2) _ assms(3), of 16] assms(4)
    by (simp add: libconfig_parse_hex64_def strtoull_def)
qed

lemma libc_bin_overflow:
  assumes "p = ''0b'' \<or> p = ''0B''" and "list_all (\<lambda>c. c = CHR ''0'' \<or> c = CHR ''1'') ds"
    and "peek rest \<noteq> CHR ''0''" and "peek rest \<noteq> CHR ''1''"
    and "2 ^ 64 \<le> digits_value 2 ds"
  shows "libconfig_parse_bin64 False (p @ ds @ rest) = Some (- 1)"
proof -
  have "ds \<noteq> []"
    using assms(5) by (auto simp: digits_value_def)
  then show ?thesis
    using scan_bin_digits [OF assms(2) _ assms(3,4)] assms(1,5)
    by (auto simp: libconfig_parse_bin64_def strtoull_def)
qed

lemma ullong_max_numeral: "(- 1 :: 64 word) = 18446744073709551615"
  by simp

lemma unat_ullong_max: "unat (- 1 :: 64 word) = 2 ^ 64 - 1"
  by (simp only: ullong_max_numeral unat_numeral) simp

subsection \<open>Claim C5: the prefix of \<open>libconfig_parse_hex64\<close>\<close>

text \<open>
  C5, as amended. Under \<open>__MINGW32__\<close>: a text that does not begin with \<open>0x\<close> or \<open>0X\<close>
  gives 0, and after the prefix the hexadecimal digits are accumulated up to the first
  character that is not one, which ends the parse silently. On every build \<open>0x1F\<close>
  gives 31. On the other builds the function is \<open>strtoull(s, NULL, 16)\<close>, for which the
  prefix is optional: \<open>1F\<close> gives 31 there.
\<close>

theorem parse_hex64_prefix:
  "(\<not> begins_with ''0x'' s \<and> \<not> begins_with ''0X'' s \<longrightarrow> libconfig_parse_hex64 True s = 0)
   \<and> ((p = ''0x'' \<or> p = ''0X'') \<and> list_all isxdigit ds \<and> \<not> isxdigit (peek rest) \<longrightarrow>
        libconfig_parse_hex64 True (p @ ds @ rest) = word_of_nat (digits_value 16 ds))
   \<and> libconfig_parse_hex64 mingw32 ''0x1F'' = 31
   \<and> libconfig_parse_hex64 False s = strtoull s 16
   \<and> libconfig_parse_hex64 False ''1F'' = 31"
proof -
  have a: "libconfig_parse_hex64 True ''0x1F'' = 31"
    by (simp add: libconfig_parse_hex64_def isxdigit_def code_def hex_nibble_def)
  have b: "libconfig_parse_hex64 False ''0x1F'' = 31"
    by (simp add: libconfig_parse_hex64_def scan_eval)
  have c: "libconfig_parse_hex64 False ''1F'' = 31"
    by (simp add: libconfig_parse_hex64_def scan_eval)
  have d: "libconfig_parse_hex64 mingw32 ''0x1F'' = 31"
    using a b by (cases mingw32) simp_all
  show ?thesis
    using mingw_hex_no_prefix [of s] mingw_hex_digits [of p ds rest] c d
    by (simp add: libconfig_parse_hex64_def)
qed

theorem parse_hex64_prefix_witness:
  "libconfig_parse_hex64 True ''1F'' = 0 \<and> libconfig_parse_hex64 True ''0x1Fz'' = 31"
  using parse_hex64_prefix [of "''1F''" "''0x''" "''1F''" "''z''" True]
  by (simp add: begins_with_def isxdigit_def code_def digits_value_def digit_num_def NUL_def)

text \<open>The claim as stated fails on a build without \<open>__MINGW32__\<close>.\<close>

theorem parse_hex64_no_prefix_counterexample:
  "\<not> begins_with ''0x'' ''1F'' \<and> \<not> begins_with ''0X'' ''1F''
   \<and> libconfig_parse_hex64 False ''1F'' \<noteq> 0"
proof -
  have "libconfig_parse_hex64 False ''1F'' = 31"
    by (simp add: libconfig_parse_hex64_def scan_eval)
  then show ?thesis
    by (simp add: begins_with_def)
qed

subsection \<open>Claim C6: the prefix of \<open>libconfig_parse_bin64\<close>\<close>

text \<open>
  C6, as amended. Under \<open>__MINGW32__\<close>: a text that does not begin with \<open>0b\<close> or \<open>0B\<close>
  gives 0, and after the prefix one bit is accumulated per \<open>0\<close> or \<open>1\<close> up to the first
  other character, which ends the parse silently. On every build \<open>0b101\<close> gives 5. On
  the other builds the first two characters are skipped without being compared with the
  prefix and the rest is given to \<open>strtoull\<close> in base 2: \<open>xx101\<close> gives 5 there.
\<close>

theorem parse_bin64_prefix:
  "(\<not> begins_with ''0b'' s \<and> \<not> begins_with ''0B'' s \<longrightarrow> libconfig_parse_bin64 True s = Some 0)
   \<and> ((p = ''0b'' \<or> p = ''0B'') \<and> list_all (\<lambda>c. c = CHR ''0'' \<or> c = CHR ''1'') ds
        \<and> peek rest \<noteq> CHR ''0'' \<and> peek rest \<noteq> CHR ''1'' \<longrightarrow>
        libconfig_parse_bin64 True (p @ ds @ rest) = Some (word_of_nat (digits_value 2 ds)))
   \<and> libconfig_parse_bin64 mingw32 ''0b101'' = Some 5
   \<and> (2 \<le> length s \<longrightarrow> libconfig_parse_bin64 False s = Some (strtoull (drop 2 s) 2))
   \<and> libconfig_parse_bin64 False ''xx101'' = Some 5"
proof -
  have a: "libconfig_parse_bin64 True ''0b101'' = Some 5"
    by (simp add: libconfig_parse_bin64_def)
  have b: "libconfig_parse_bin64 False ''0b101'' = Some 5"
    by (simp add: libconfig_parse_bin64_def scan_eval)
  have c: "libconfig_parse_bin64 False ''xx101'' = Some 5"
    by (simp add: libconfig_parse_bin64_def scan_eval)
  have d: "libconfig_parse_bin64 mingw32 ''0b101'' = Some 5"
    using a b by (cases mingw32) simp_all
  show ?thesis
    using mingw_bin_no_prefix [of s] mingw_bin_digits [of p ds rest] c d
    by (simp add: libconfig_parse_bin64_def)
qed

theorem parse_bin64_prefix_witness:
  "libconfig_parse_bin64 True ''101'' = Some 0 \<and> libconfig_parse_bin64 True ''0b101z'' = Some 5
   \<and> libconfig_parse_bin64 False ''0b101'' = Some (strtoull ''101'' 2)"
  using parse_bin64_prefix [of "''101''" "''0b''" "''101''" "''z''" True]
    parse_bin64_prefix [of "''0b101''" "''0b''" "''101''" "''z''" True]
  by (simp add: begins_with_def code_def digits_value_def digit_num_def NUL_def)

text \<open>The claim as stated fails on a build without \<open>__MINGW32__\<close>.\<close>

theorem parse_bin64_no_prefix_counterexample:
  "\<not> begins_with ''0b'' ''xx101'' \<and> \<not> begins_with ''0B'' ''xx101''
   \<and> libconfig_parse_bin64 False ''xx101'' \<noteq> Some 0"
proof -
  have "libconfig_parse_bin64 False ''xx101'' = Some 5"
    by (simp add: libconfig_parse_bin64_def scan_eval)
  then show ?thesis
    by (simp add: begins_with_def)
qed

subsection \<open>Claim C7: digit sequences beyond 64 bits\<close>

text \<open>
  C7, as amended. Neither function has an error result. Under \<open>__MINGW32__\<close> the value
  returned is the exact value of the consumed digits modulo \<open>2^64\<close>. On the other builds
  a digit sequence whose value exceeds the unsigned 64-bit range gives \<open>ULLONG_MAX\<close>,
  the saturated result of \<open>strtoull\<close>, not the value modulo \<open>2^64\<close>.
\<close>

theorem parse_hex64_bin64_overflow:
  "((p = ''0x'' \<or> p = ''0X'') \<and> list_all isxdigit ds \<and> \<not> isxdigit (peek rest) \<longrightarrow>
      unat (libconfig_parse_hex64 True (p @ ds @ rest)) = digits_value 16 ds mod 2 ^ 64
      \<and> (2 ^ 64 \<le> digits_value 16 ds \<longrightarrow>
           unat (libconfig_parse_hex64 False (p @ ds @ rest)) = 2 ^ 64 - 1))
   \<and> ((q = ''0b'' \<or> q = ''0B'') \<and> list_all (\<lambda>c. c = CHR ''0'' \<or> c = CHR ''1'') bs
        \<and> peek rest' \<noteq> CHR ''0'' \<and> peek rest' \<noteq> CHR ''1'' \<longrightarrow>
      map_option unat (libconfig_parse_bin64 True (q @ bs @ rest')) = Some (digits_value 2 bs mod 2 ^ 64)
      \<and> (2 ^ 64 \<le> digits_value 2 bs \<longrightarrow>
           map_option unat (libconfig_parse_bin64 False (q @ bs @ rest')) = Some (2 ^ 64 - 1)))"
proof -
  show ?thesis
    using mingw_hex_digits [of p ds rest] libc_hex_overflow [of p ds rest]
      mingw_bin_digits [of q bs rest'] libc_bin_overflow [of q bs rest'] unat_ullong_max
    by (simp add: unat_of_nat)
qed

theorem parse_hex64_bin64_overflow_witness:
  "unat (libconfig_parse_hex64 True ''0x1F0000000000000001'') = 1
   \<and> unat (libconfig_parse_hex64 False ''0x1F0000000000000001'') = 2 ^ 64 - 1
   \<and> map_option unat (libconfig_parse_bin64 True ''0b10000000000000000000000000000000000000000000000000000000000000001'') = Some 1
   \<and> map_option unat (libconfig_parse_bin64 False ''0b10000000000000000000000000000000000000000000000000000000000000001'') = Some (2 ^ 64 - 1)"
proof -
  have h: "digits_value 16 ''1F0000000000000001'' = 31 * 2 ^ 64 + 1"
    by (simp add: digits_value_def digit_num_def code_def)
  have b: "digits_value 2 ''10000000000000000000000000000000000000000000000000000000000000001'' = 2 ^ 64 + 1"
    by (simp add: digits_value_def digit_num_def code_def)
  have x: "list_all isxdigit ''1F0000000000000001''"
    by (simp add: isxdigit_def code_def)
  show ?thesis
    using parse_hex64_bin64_overflow [of "''0x''" "''1F0000000000000001''" "[]" "''0b''"
        "''10000000000000000000000000000000000000000000000000000000000000001''" "[]"] h b x
    by (simp add: NUL_def isxdigit_def code_def)
qed

text \<open>The claim as stated fails on a build without \<open>__MINGW32__\<close>.\<close>

theorem parse_hex64_wrap_counterexample:
  "list_all isxdigit ''10000000000000000'' \<and> 2 ^ 64 \<le> digits_value 16 ''10000000000000000''
   \<and> unat (libconfig_parse_hex64 False ''0x10000000000000000'')
       \<noteq> digits_value 16 ''10000000000000000'' mod 2 ^ 64"
proof -
  have h: "digits_value 16 ''10000000000000000'' = 2 ^ 64"
    by (simp add: digits_value_def digit_num_def code_def)
  have "libconfig_parse_hex64 False ''0x10000000000000000'' = - 1"
    using libc_hex_overflow [of "''0x''" "''10000000000000000''" "[]"] h
    by (simp add: isxdigit_def code_def NUL_def)
  then show ?thesis
    using h unat_ullong_max by (simp add: isxdigit_def code_def)
qed

subsection \<open>Claim C4: \<open>libconfig_parse_integer\<close>\<close>

lemma strtoll_errno: "snd (snd (strtoll s b 0)) = 0 \<or> snd (snd (strtoll s b 0)) = ERANGE"
  by (auto simp: strtoll_def split: option.splits)

lemma parse_integer_eq:
  "libconfig_parse_integer s en =
     (if consumed_all s \<and> \<not> range_error s then ((fst (strtoll s 0 0), True), en)
      else ((0, False), 0))"
  using strtoll_errno [of s 0]
  by (auto simp: libconfig_parse_integer_def consumed_all_def range_error_def ERANGE_def
      split: prod.splits)

lemma decimal_digit_code:
  assumes "digit_ok b c" and "b \<le> 10"
  shows "48 \<le> code c \<and> code c \<le> 57"
  using assms unfolding digit_ok_def digit_num_def by (simp split: if_splits) 

lemma decimal_digit_plain:
  assumes "digit_ok b c" and "b \<le> 10"
  shows "\<not> isspace c" "c \<noteq> CHR ''-''" "c \<noteq> CHR ''+''" "c \<noteq> CHR ''x''" "c \<noteq> CHR ''X''" "c \<noteq> NUL"
  using decimal_digit_code [OF assms] by (auto simp: isspace_def code_def NUL_def)

lemma digits_value_leading_zero: "digits_value b (CHR ''0'' # ds) = digits_value b ds"
  by (simp add: digits_value_def digit_num_def code_def)

lemma skip_none: "\<not> isspace (peek s) \<Longrightarrow> dropWhile isspace s = s"
  by (cases s) simp_all

lemma scan_unsigned_eq:
  assumes "\<not> isspace (peek s)" and "peek s \<noteq> CHR ''-''" and "peek s \<noteq> CHR ''+''"
  shows "strto_scan base s =
     (let b = scan_base base s;
          s3 = (if has_hex_prefix base s then tl (tl s) else s);
          ds = takeWhile (digit_ok b) s3
      in if ds = [] then None else Some (False, digits_value b ds, dropWhile (digit_ok b) s3))"
proof -
  have s2: "(if peek s = CHR ''-'' \<or> peek s = CHR ''+'' then tl s else s) = s"
    using assms(2,3) by simp
  show ?thesis
    unfolding strto_scan_def skip_none [OF assms(1)] Let_def s2
    using assms(2) by simp
qed

lemma scan_unsigned:
  assumes "\<not> isspace (peek s)" and "peek s \<noteq> CHR ''-''" and "peek s \<noteq> CHR ''+''"
    and "scan_base base s = b" and "(if has_hex_prefix base s then tl (tl s) else s) = s3"
    and "takeWhile (digit_ok b) s3 = ds" and "dropWhile (digit_ok b) s3 = rest" and "ds \<noteq> []"
  shows "strto_scan base s = Some (False, digits_value b ds, rest)"
  unfolding scan_unsigned_eq [OF assms(1,2,3)] Let_def assms(4) assms(5) assms(6) assms(7)
  using assms(8) by simp

lemma zero_plain: "\<not> isspace (CHR ''0'')" "digit_ok 8 (CHR ''0'')" "digit_ok 10 (CHR ''0'')"
  by (simp_all add: isspace_def digit_ok_def digit_num_def code_def)

lemma scan_octal:
  assumes "list_all (digit_ok 8) ds" and "\<not> digit_ok 8 (peek rest)"
    and "ds = [] \<longrightarrow> peek rest \<noteq> CHR ''x'' \<and> peek rest \<noteq> CHR ''X''"
  shows "strto_scan 0 (''0'' @ ds @ rest) = Some (False, digits_value 8 ds, rest)"
proof -
  have nx: "peek (ds @ rest) \<noteq> CHR ''x'' \<and> peek (ds @ rest) \<noteq> CHR ''X''"
  proof (cases ds)
    case Nil
    then show ?thesis using assms(3) by simp
  next
    case (Cons c cs)
    then show ?thesis
      using assms(1) decimal_digit_plain(4,5) [of 8 c] by simp
  qed
  then have hex: "\<not> has_hex_prefix 0 (''0'' @ ds @ rest)"
    by (simp add: has_hex_prefix_def)
  then have b: "scan_base 0 (''0'' @ ds @ rest) = 8"
    by (simp add: scan_base_def)
  have run: "takeWhile (digit_ok 8) (''0'' @ ds @ rest) = ''0'' @ ds"
     "dropWhile (digit_ok 8) (''0'' @ ds @ rest) = rest"
    using run_then_stop [of "digit_ok 8" "''0'' @ ds" rest] assms(1,2) zero_plain by simp_all
  have "strto_scan 0 (''0'' @ ds @ rest) = Some (False, digits_value 8 (''0'' @ ds), rest)"
    by (rule scan_unsigned [OF _ _ _ b _ run]) (use hex zero_plain in simp_all)
  then show ?thesis
    by (simp add: digits_value_leading_zero)
qed

lemma scan_decimal:
  assumes "list_all (digit_ok 10) ds" and "ds \<noteq> []" and "hd ds \<noteq> CHR ''0''"
    and "\<not> digit_ok 10 (peek rest)"
  shows "strto_scan 0 (ds @ rest) = Some (False, digits_value 10 ds, rest)"
proof -
  obtain c cs where ds: "ds = c # cs"
    using assms(2) by (cases ds) auto
  have c: "digit_ok 10 c" "c \<noteq> CHR ''0''"
    using assms(1,3) ds by simp_all
  have hex: "\<not> has_hex_prefix 0 (ds @ rest)"
    using c ds by (simp add: has_hex_prefix_def)
  then have b: "scan_base 0 (ds @ rest) = 10"
    using c ds by (simp add: scan_base_def)
  have run: "takeWhile (digit_ok 10) (ds @ rest) = ds" "dropWhile (digit_ok 10) (ds @ rest) = rest"
    using run_then_stop [of "digit_ok 10" ds rest] assms(1,4) by simp_all
  show ?thesis
    by (rule scan_unsigned [OF _ _ _ b _ run assms(2)])
      (use c ds decimal_digit_plain [of 10 c] hex in simp_all)
qed

lemma nul_no_digit: "\<not> digit_ok 8 NUL" "\<not> digit_ok 10 NUL" "\<not> isxdigit NUL" "\<not> digit_ok 16 NUL"
  by (simp_all add: digit_ok_def digit_num_def isxdigit_def code_def NUL_def)

lemma nul_not_x: "NUL \<noteq> CHR ''x''" "NUL \<noteq> CHR ''X''"
  by (simp_all add: NUL_def)

lemma strtoll_in_range:
  assumes "strto_scan 0 s = Some (False, v, rest)" and "v < 2 ^ 63"
  shows "strtoll s 0 0 = (of_nat v, rest, 0)"
  using assms by (simp add: strtoll_def)

lemma parse_integer_digits:
  assumes "strto_scan 0 s = Some (False, v, [])" and "v < 2 ^ 63"
  shows "libconfig_parse_integer s en = ((of_nat v, True), en)"
  using strtoll_in_range [OF assms]
  by (simp add: libconfig_parse_integer_def)

lemma parse_integer_trailing:
  assumes "strto_scan 0 s = Some (neg, v, c # rest)" and "c \<noteq> NUL"
  shows "libconfig_parse_integer s en = ((0, False), 0)"
  using assms by (simp add: libconfig_parse_integer_def strtoll_def)


lemma parse_integer_overflow:
  assumes "strto_scan 0 s = Some (False, v, rest)" and "2 ^ 63 \<le> v"
  shows "libconfig_parse_integer s en = ((0, False), 0)"
  using assms by (simp add: libconfig_parse_integer_def strtoll_def ERANGE_def)

lemma parse_integer_hex:
  assumes "p = ''0x'' \<or> p = ''0X''" and "ds \<noteq> []" and "list_all isxdigit ds"
    and "digits_value 16 ds < 2 ^ 63"
  shows "libconfig_parse_integer (p @ ds) en = ((word_of_nat (digits_value 16 ds), True), en)"
  using scan_hex_digits [OF assms(1,3,2), of "[]" 0] assms(4)
  by (simp add: parse_integer_digits nul_no_digit)

lemma parse_integer_octal:
  assumes "list_all (digit_ok 8) ds" and "digits_value 8 ds < 2 ^ 63"
  shows "libconfig_parse_integer (''0'' @ ds) en = ((word_of_nat (digits_value 8 ds), True), en)"
  using scan_octal [OF assms(1), of "[]"] assms(2)
  by (simp add: parse_integer_digits nul_no_digit nul_not_x)

lemma parse_integer_decimal:
  assumes "ds \<noteq> []" and "hd ds \<noteq> CHR ''0''" and "list_all (digit_ok 10) ds"
    and "digits_value 10 ds < 2 ^ 63"
  shows "libconfig_parse_integer ds en = ((word_of_nat (digits_value 10 ds), True), en)"
  using scan_decimal [OF assms(3,1,2), of "[]"] assms(4)
  by (simp add: parse_integer_digits nul_no_digit)

lemma parse_integer_decimal_overflow:
  assumes "ds \<noteq> []" and "hd ds \<noteq> CHR ''0''" and "list_all (digit_ok 10) ds"
    and "2 ^ 63 \<le> digits_value 10 ds"
  shows "libconfig_parse_integer ds en = ((0, False), 0)"
  using scan_decimal [OF assms(3,1,2), of "[]"] assms(4)
  by (simp add: parse_integer_overflow nul_no_digit)

lemma parse_integer_bad_octal:
  assumes "list_all (digit_ok 8) ds" and "c = CHR ''8'' \<or> c = CHR ''9''"
  shows "libconfig_parse_integer (''0'' @ ds @ c # rest) en = ((0, False), 0)"
proof -
  have c: "\<not> digit_ok 8 c" "c \<noteq> CHR ''x''" "c \<noteq> CHR ''X''" "c \<noteq> NUL"
    using assms(2) by (auto simp: digit_ok_def digit_num_def code_def NUL_def)
  have "strto_scan 0 (''0'' @ ds @ c # rest) = Some (False, digits_value 8 ds, c # rest)"
    using c by (intro scan_octal assms(1)) simp_all
  then show ?thesis
    using c(4) by (rule parse_integer_trailing)
qed

text \<open>
  C4. \<open>libconfig_parse_integer\<close> returns \<open>ok = true\<close>, with the value of \<open>strtoll\<close>,
  exactly when \<open>strtoll\<close> with base 0 consumed the whole text and reported no range
  error; in every other case it returns \<open>ok = false\<close> and the value 0. The base is
  detected from the prefix: after \<open>0x\<close>/\<open>0X\<close> the digits are read in base 16, after a
  leading \<open>0\<close> in base 8, otherwise in base 10, and a value of \<open>2^63\<close> or more is a
  range error. A digit 8 or 9 after a leading \<open>0\<close> stops the scan and leaves trailing
  content, so \<open>08\<close> fails.
\<close>

theorem parse_integer_contract:
  "libconfig_parse_integer s en =
     (if consumed_all s \<and> \<not> range_error s then ((fst (strtoll s 0 0), True), en)
      else ((0, False), 0))
   \<and> ((p = ''0x'' \<or> p = ''0X'') \<and> hs \<noteq> [] \<and> list_all isxdigit hs \<and> digits_value 16 hs < 2 ^ 63 \<longrightarrow>
        libconfig_parse_integer (p @ hs) en = ((word_of_nat (digits_value 16 hs), True), en))
   \<and> (list_all (digit_ok 8) os \<and> digits_value 8 os < 2 ^ 63 \<longrightarrow>
        libconfig_parse_integer (''0'' @ os) en = ((word_of_nat (digits_value 8 os), True), en))
   \<and> (ns \<noteq> [] \<and> hd ns \<noteq> CHR ''0'' \<and> list_all (digit_ok 10) ns \<and> digits_value 10 ns < 2 ^ 63 \<longrightarrow>
        libconfig_parse_integer ns en = ((word_of_nat (digits_value 10 ns), True), en))
   \<and> (ns \<noteq> [] \<and> hd ns \<noteq> CHR ''0'' \<and> list_all (digit_ok 10) ns \<and> 2 ^ 63 \<le> digits_value 10 ns \<longrightarrow>
        libconfig_parse_integer ns en = ((0, False), 0))
   \<and> (list_all (digit_ok 8) os \<and> (c = CHR ''8'' \<or> c = CHR ''9'') \<longrightarrow>
        libconfig_parse_integer (''0'' @ os @ c # rest) en = ((0, False), 0))
   \<and> libconfig_parse_integer ''08'' en = ((0, False), 0)
   \<and> libconfig_parse_integer ''0x1A'' en = ((26, True), en)
   \<and> libconfig_parse_integer ''10'' en = ((10, True), en)"
proof -
  have a: "libconfig_parse_integer ''08'' en = ((0, False), 0)"
    using parse_integer_bad_octal [of "[]" "CHR ''8''" "[]" en] by simp
  have b: "libconfig_parse_integer ''0x1A'' en = ((26, True), en)"
    using parse_integer_hex [of "''0x''" "''1A''" en]
    by (simp add: isxdigit_def code_def digits_value_def digit_num_def)
  have c: "libconfig_parse_integer ''10'' en = ((10, True), en)"
    using parse_integer_decimal [of "''10''" en]
    by (simp add: digit_ok_def code_def digits_value_def digit_num_def)
  show ?thesis
    using parse_integer_eq [of s en] parse_integer_hex [of p hs en]
      parse_integer_octal [of os en] parse_integer_decimal [of ns en]
      parse_integer_decimal_overflow [of ns en] parse_integer_bad_octal [of os c rest en] a b c
    by (intro conjI impI) simp_all
qed

theorem parse_integer_contract_witness:
  "libconfig_parse_integer ''0XfF'' 7 = ((255, True), 7)
   \<and> libconfig_parse_integer ''017'' 7 = ((15, True), 7)
   \<and> libconfig_parse_integer ''42'' 7 = ((42, True), 7)
   \<and> libconfig_parse_integer ''9223372036854775808'' 7 = ((0, False), 0)
   \<and> libconfig_parse_integer ''0179'' 7 = ((0, False), 0)"
  using parse_integer_contract [of "''42''" 7 "''0X''" "''fF''" "''17''" "''42''" "CHR ''9''" "[]"]
    parse_integer_contract [of "''42''" 7 "''0X''" "''fF''" "''17''" "''9223372036854775808''" "CHR ''9''" "[]"]
  by (simp add: isxdigit_def digit_ok_def code_def digits_value_def digit_num_def)


section \<open>Properties of the formatting functions\<close>

declare leading_zeros.simps [simp del]
declare format_bin_loop.simps [simp del]
declare strip_zeros.simps [simp del]

lemma bits_from_Suc: "bits_from val (Suc n) = bitchar val n # bits_from val n"
  by (simp add: bits_from_def)

lemma format_bin_loop_bits:
  "c \<le> 64 \<Longrightarrow> format_bin_loop val lim c i = take (lim - i) (bits_from val (64 - c))"
proof (induction val lim c i rule: format_bin_loop.induct)
  case (1 val lim c i)
  show ?case
  proof (cases "c < 64 \<and> i < lim")
    case True
    then have s: "64 - c = Suc (63 - c)" and l: "lim - i = Suc (lim - (i + 1))"
      by arith+
    have "format_bin_loop val lim c i = bitchar val (63 - c) # format_bin_loop val lim (c + 1) (i + 1)"
      using True by (subst format_bin_loop.simps) (simp add: bitchar_def bit_iff_and_push_bit_not_eq_0)
    also have "format_bin_loop val lim (c + 1) (i + 1) = take (lim - (i + 1)) (bits_from val (64 - (c + 1)))"
      using True by (intro "1.IH") simp_all
    finally show ?thesis
      unfolding s l by (simp add: bits_from_Suc)
  next
    case False
    then have "c = 64 \<or> lim \<le> i"
      using "1.prems" by auto
    then show ?thesis
      using False by (subst format_bin_loop.simps) (auto simp: bits_from_def)
  qed
qed

lemma leading_zeros_props:
  "leading_zeros n x \<le> n
   \<and> (\<forall>k. n - leading_zeros n x \<le> k \<and> k < n \<longrightarrow> \<not> bit x k)
   \<and> (leading_zeros n x < n \<longrightarrow> bit x (n - leading_zeros n x - 1))"
proof (induction n)
  case 0
  then show ?case by (simp add: leading_zeros.simps)
next
  case (Suc n)
  show ?case
  proof (cases "bit x n")
    case True
    then show ?thesis by (auto simp: leading_zeros.simps [of "Suc n"])
  next
    case False
    then have e: "leading_zeros (Suc n) x = Suc (leading_zeros n x)"
      by (simp add: leading_zeros.simps [of "Suc n"])
    show ?thesis
      unfolding e using Suc False by (auto simp: less_Suc_eq)
  qed
qed

lemma leading_zeros_nonzero:
  assumes "x \<noteq> 0"
  shows "leading_zeros 64 x < 64"
proof (rule ccontr)
  assume "\<not> leading_zeros 64 x < 64"
  then have "leading_zeros 64 x = 64"
    using leading_zeros_props [of 64 x] by simp
  then have "\<forall>k<64. \<not> bit x k"
    using leading_zeros_props [of 64 x] by simp
  then have "x = 0"
    by (intro bit_eqI) (auto simp: bit_simps dest: bit_imp_le_length)
  with assms show False by simp
qed


lemma take_bit_bits_from:
  "digits_value 2 (bits_from val n) = take_bit n (unat val)"
proof -
  let ?f = "\<lambda>acc c. acc * 2 + digit_num c"
  have acc: "foldl ?f a (bits_from val n) = a * 2 ^ n + take_bit n (unat val)" for a
  proof (induction n arbitrary: a)
    case 0
    then show ?case by (simp add: bits_from_def)
  next
    case (Suc n)
    have d: "digit_num (bitchar val n) = of_bool (bit val n)"
      by (simp add: bitchar_def digit_num_def code_def)
    have b: "bit (unat val) n = bit val n"
      by (simp add: bit_unsigned_iff)
    have "foldl ?f a (bits_from val (Suc n)) = foldl ?f (a * 2 + of_bool (bit val n)) (bits_from val n)"
      by (simp add: bits_from_Suc d)
    also have "\<dots> = (a * 2 + of_bool (bit val n)) * 2 ^ n + take_bit n (unat val)"
      by (rule Suc.IH)
    also have "\<dots> = a * 2 ^ Suc n + take_bit (Suc n) (unat val)"
      by (simp add: take_bit_Suc_from_most b algebra_simps)
    finally show ?case .
  qed
  show ?thesis
    using acc [of 0] by (simp add: digits_value_def)
qed

lemma word64_nonzero_bit:
  fixes val :: "64 word"
  assumes "val \<noteq> 0"
  shows "\<exists>k<64. bit val k"
proof (rule ccontr)
  assume "\<not> (\<exists>k<64. bit val k)"
  then have "val = 0"
    by (intro bit_eqI) (auto simp: bit_simps dest: bit_imp_le_length)
  with assms show False by simp
qed

lemma clzl_loop_finds:
  assumes "\<forall>k. bit check k \<longleftrightarrow> (63 - j \<le> k \<and> k < 64)" and "j \<le> 63"
    and "\<forall>k. 63 - j < k \<and> k < 64 \<longrightarrow> \<not> bit val k" and "val \<noteq> 0"
  shows "clzl_loop val check j = Some (j + leading_zeros (64 - j) val)"
  using assms
proof (induction "63 - j" arbitrary: j check rule: less_induct)
  case less
  have c63: "bit check 63"
    using less.prems(1) by simp
  then have nz: "check \<noteq> 0"
    by auto
  have m: "64 - j - 1 = 63 - j" "64 - j \<noteq> 0"
    using less.prems(2) by arith+
  show ?case
  proof (cases "bit val (63 - j)")
    case True
    then have "bit (val AND check) (63 - j)"
      using less.prems(1,2) by (simp add: bit_and_iff)
    then have "val AND check \<noteq> 0"
      by auto
    then show ?thesis
      using True m by (subst clzl_loop.simps) (simp add: leading_zeros.simps [of "64 - j"])
  next
    case False
    have z: "val AND check = 0"
      using False less.prems(1,3)
      by (intro bit_eqI) (auto simp: bit_and_iff le_eq_less_or_eq)
    have j: "j < 63"
    proof (rule ccontr)
      assume "\<not> j < 63"
      then have "j = 63" using less.prems(2) by simp
      then have "\<not> bit val k" if "k < 64" for k
        using that False less.prems(3) by (cases "k = 0") auto
      then show False
        using word64_nonzero_bit [OF less.prems(4)] by blast
    qed
    have inv: "\<forall>k. bit (signed_drop_bit 1 check) k \<longleftrightarrow> (63 - (j + 1) \<le> k \<and> k < 64)"
    proof
      fix k
      have e: "bit (signed_drop_bit 1 check) k = bit check (if k = 63 then 63 else Suc k)"
        by (simp add: bit_signed_drop_bit_iff)
      have a: "(63 - j \<le> Suc k \<and> Suc k < 64) = (63 - (j + 1) \<le> k \<and> k < 64)" if "k \<noteq> 63"
        using that j by arith
      show "bit (signed_drop_bit 1 check) k \<longleftrightarrow> (63 - (j + 1) \<le> k \<and> k < 64)"
      proof (cases "k = 63")
        case True
        then show ?thesis using e c63 by simp
      next
        case False
        then show ?thesis
          using e a less.prems(1) by simp
      qed
    qed
    have hi: "\<forall>k. 63 - (j + 1) < k \<and> k < 64 \<longrightarrow> \<not> bit val k"
    proof (intro allI impI)
      fix k
      assume k: "63 - (j + 1) < k \<and> k < 64"
      then have "k = 63 - j \<or> 63 - j < k"
        using j by arith
      then show "\<not> bit val k"
        using False less.prems(3) k by auto
    qed
    have "clzl_loop val check j = clzl_loop val (signed_drop_bit 1 check) (j + 1)"
      using z nz by (subst clzl_loop.simps) simp
    also have "\<dots> = Some (j + 1 + leading_zeros (64 - (j + 1)) val)"
      using j by (intro less.hyps inv hi less.prems(4)) simp_all
    also have "\<dots> = Some (j + leading_zeros (64 - j) val)"
      using False m j by (simp add: leading_zeros.simps [of "64 - j"])
    finally show ?thesis .
  qed
qed


lemma clzl_nonzero:
  assumes "val \<noteq> 0" and "gnuc \<longrightarrow> long_bits = 64"
  shows "clzl gnuc long_bits val = Some (leading_zeros 64 val)"
proof (cases gnuc)
  case True
  have "take_bit 64 val = val"
    by (rule take_bit_word_eq_self) simp
  then show ?thesis
    using assms True by (simp add: clzl_def builtin_clzl_def)
next
  case False
  have p1: "\<forall>k. bit (push_bit 63 1 :: 64 word) k \<longleftrightarrow> (63 - 0 \<le> k \<and> k < 64)"
    by (subst bit_push_bit_iff) (auto simp: bit_1_iff)
  have p2: "(0::nat) \<le> 63"
    by simp
  have p3: "\<forall>k. 63 - 0 < k \<and> k < 64 \<longrightarrow> \<not> bit val k"
    by arith
  have "clzl_loop val (push_bit 63 1) 0 = Some (0 + leading_zeros (64 - 0) val)"
    by (rule clzl_loop_finds [OF p1 p2 p3 assms(1)])
  then show ?thesis
    using False by (simp add: clzl_def)
qed

lemma format_bin_nonzero:
  assumes "val \<noteq> 0" and "buflen \<noteq> 0" and "gnuc \<longrightarrow> long_bits = 64"
  shows "libconfig_format_bin gnuc long_bits val buflen
         = Some (take (buflen - 1) (bits_from val (64 - leading_zeros 64 val)))"
  using assms(1,2) leading_zeros_props [of 64 val]
  by (simp add: libconfig_format_bin_def clzl_nonzero [OF assms(1,3)] format_bin_loop_bits)

lemma minimal_bits:
  assumes "val \<noteq> 0"
  defines "full \<equiv> bits_from val (64 - leading_zeros 64 val)"
  shows "hd full = CHR ''1''" and "list_all (\<lambda>c. c = CHR ''0'' \<or> c = CHR ''1'') full"
    and "digits_value 2 full = unat val" and "full \<noteq> []" and "length full \<le> 64"
proof -
  let ?c = "leading_zeros 64 val"
  have c: "?c < 64"
    using assms(1) by (rule leading_zeros_nonzero)
  then obtain n where n: "64 - ?c = Suc n"
    by (cases "64 - ?c") auto
  have top: "bit val n"
    using leading_zeros_props [of 64 val] c n by simp
  have high: "k < Suc n" if "bit val k" for k
  proof (rule ccontr)
    assume "\<not> k < Suc n"
    moreover have "k < 64"
      using that by (auto dest: bit_imp_le_length)
    ultimately show False
      using leading_zeros_props [of 64 val] n that by auto
  qed
  show "hd full = CHR ''1''"
    unfolding full_def n by (simp add: bits_from_Suc bitchar_def top)
  show "list_all (\<lambda>c. c = CHR ''0'' \<or> c = CHR ''1'') full"
    unfolding full_def by (auto simp: bits_from_def list_all_iff bitchar_def)
  have "take_bit (Suc n) val = val"
    using high by (intro bit_eqI) (auto simp: bit_simps)
  then have "take_bit (Suc n) (unat val) = unat val"
    by (metis unsigned_take_bit_eq)
  then show "digits_value 2 full = unat val"
    unfolding full_def n by (simp add: take_bit_bits_from)
  show "full \<noteq> []"
    unfolding full_def n by (simp add: bits_from_Suc)
  show "length full \<le> 64"
    unfolding full_def by (simp add: bits_from_def)
qed


subsection \<open>Claim C9: \<open>libconfig_format_bin\<close> on nonzero values\<close>

text \<open>
  Where \<open>clzl\<close> counts on 64 bits, that is with the loop of the file, or with the builtin
  on a target whose \<open>unsigned long\<close> has 64 bits, the function returns for every nonzero
  value and every buffer capacity of at least 2 the first \<open>buflen - 1\<close> characters of the
  bits of the value, most significant first, starting after the leading zero bits. That
  full text begins with \<open>1\<close>, consists of binary digits, has at most 64 of them and denotes
  the unsigned value of the 64-bit pattern: it is the minimal binary representation. No
  error is signalled when the text is cut. The value 5 gives \<open>101\<close>.
\<close>

lemma format_bin_five:
  assumes "gnuc \<longrightarrow> long_bits = 64" and "4 \<le> buflen"
  shows "libconfig_format_bin gnuc long_bits 5 buflen = Some ''101''"
proof -
  have "leading_zeros 64 5 = 61"
    by (simp add: leading_zeros.simps)
  moreover have "rev [0..<3] = [2, 1, 0 :: nat]"
    by (simp add: numeral_3_eq_3)
  ultimately have five: "bits_from 5 (64 - leading_zeros 64 5) = ''101''"
    by (simp add: bits_from_def bitchar_def)
  show ?thesis
    using assms format_bin_nonzero [of 5 buflen gnuc long_bits] five by simp
qed

lemma format_bin_minimal_long64:
  assumes "gnuc \<longrightarrow> long_bits = 64"
  shows "(val \<noteq> 0 \<and> 2 \<le> buflen \<longrightarrow>
      (\<exists>full. libconfig_format_bin gnuc long_bits val buflen = Some (take (buflen - 1) full)
         \<and> full = bits_from val (64 - leading_zeros 64 val)
         \<and> hd full = CHR ''1''
         \<and> list_all (\<lambda>c. c = CHR ''0'' \<or> c = CHR ''1'') full
         \<and> digits_value 2 full = unat val
         \<and> length full \<le> 64))
   \<and> (4 \<le> buflen \<longrightarrow> libconfig_format_bin gnuc long_bits 5 buflen = Some ''101'')"
  using format_bin_nonzero [of val buflen gnuc long_bits] minimal_bits [of val] assms
    format_bin_five [OF assms, of buflen]
  by auto

lemma format_bin_minimal_long64_example:
  "libconfig_format_bin True 64 6 3 = Some ''11'' \<and> libconfig_format_bin False 32 6 3 = Some ''11''
   \<and> libconfig_format_bin False 32 5 4 = Some ''101''"
proof -
  have "leading_zeros 64 6 = 61"
    by (simp add: leading_zeros.simps)
  moreover have "rev [0..<3] = [2, 1, 0 :: nat]"
    by (simp add: numeral_3_eq_3)
  ultimately have six: "bits_from 6 (64 - leading_zeros 64 6) = ''110''"
    by (simp add: bits_from_def bitchar_def)
  show ?thesis
    using format_bin_minimal_long64 [of True 64 6 3] format_bin_minimal_long64 [of False 32 6 3]
      format_bin_minimal_long64 [of False 32 6 4] six
    by simp
qed

lemma bits_from_five:
  assumes "3 \<le> n"
  shows "bits_from 5 n = replicate (n - 3) (CHR ''0'') @ ''101''"
  using assms
proof (induction n rule: nat_induct_at_least)
  case base
  have "rev [0..<3] = [2, 1, 0 :: nat]"
    by (simp add: numeral_3_eq_3)
  then show ?case
    by (simp add: bits_from_def bitchar_def)
next
  case (Suc n)
  have "\<not> bit (5 :: 64 word) n"
  proof
    assume "bit (5 :: 64 word) n"
    then have "bit (take_bit 3 (5 :: 64 word)) n"
      by simp
    then show False
      using Suc.hyps by (simp only: bit_take_bit_iff) simp
  qed
  moreover have "Suc n - 3 = Suc (n - 3)"
    using Suc.hyps by arith
  ultimately show ?case
    using Suc.IH by (simp add: bits_from_Suc bitchar_def)
qed

text \<open>
  C9. For every nonzero value the output is the minimal binary representation, with no
  leading zero: \<open>libconfig_format_bin(5, ...)\<close> is \<open>101\<close>. The code does not do this on a
  \<open>__GNUC__\<close> build whose \<open>unsigned long\<close> has 32 bits: \<open>__builtin_clzl\<close> then counts the
  leading zeros of the low 32 bits of the value, 29 for the value 5, and the function writes
  the 35 bits from bit 34 down, 32 zeros before \<open>101\<close>. The loop of the file that replaces
  the builtin on other compilers counts on 64 bits and gives \<open>101\<close>, as does the builtin
  where \<open>unsigned long\<close> has 64 bits.
\<close>

theorem format_bin_long32_leading_zeros:
  "libconfig_format_bin True 32 5 64 = Some (replicate 32 (CHR ''0'') @ ''101'')
   \<and> libconfig_format_bin False 32 5 64 = Some ''101''
   \<and> libconfig_format_bin True 64 5 64 = Some ''101''"
proof -
  have "take_bit 32 (5 :: 64 word) = 5"
    by (simp add: take_bit_eq_mask mask_eq_exp_minus_1)
  moreover have "leading_zeros 32 (5 :: 64 word) = 29"
    by (simp add: leading_zeros.simps)
  ultimately have "clzl True 32 5 = Some 29"
    by (simp add: clzl_def builtin_clzl_def)
  then have "libconfig_format_bin True 32 5 64 = Some (bits_from 5 35)"
    by (simp add: libconfig_format_bin_def format_bin_loop_bits bits_from_def)
  then have "libconfig_format_bin True 32 5 64 = Some (replicate 32 (CHR ''0'') @ ''101'')"
    by (simp add: bits_from_five)
  then show ?thesis
    using format_bin_five [of False 32 64] format_bin_five [of True 64 64]
    by simp
qed

subsection \<open>Claim C8: the post-processing of \<open>libconfig_format_double\<close>\<close>

lemma strip_zeros_spec:
  assumes "q = length buf - 1"
  shows "\<exists>k. buf = strip_zeros buf p q @ replicate k (CHR ''0'')
           \<and> (length (strip_zeros buf p q) \<le> p + 2 \<or> last (strip_zeros buf p q) \<noteq> CHR ''0'')
           \<and> min (length buf) (p + 2) \<le> length (strip_zeros buf p q)"
  using assms
proof (induction buf p q rule: strip_zeros.induct)
  case (1 buf p q)
  show ?case
  proof (cases "p + 1 < q")
    case False
    then have "strip_zeros buf p q = buf"
      by (subst strip_zeros.simps) simp
    moreover have "length buf \<le> p + 2"
      using False "1.prems" by arith
    ultimately show ?thesis
      by (intro exI [of _ 0]) simp
  next
    case True
    then have ne: "buf \<noteq> []" and q: "q < length buf" and lq: "length buf = Suc q"
      using "1.prems" by auto
    have l: "last buf = buf ! q"
      using ne lq by (simp add: last_conv_nth)
    show ?thesis
    proof (cases "buf ! q = CHR ''0''")
      case False
      then have "strip_zeros buf p q = buf"
        using True by (subst strip_zeros.simps) simp
      then show ?thesis
        using False l by (intro exI [of _ 0]) simp
    next
      case z: True
      let ?r = "strip_zeros (take q buf) p (q - 1)"
      have e: "strip_zeros buf p q = ?r"
        using True z by (subst strip_zeros.simps) simp
      have "q - 1 = length (take q buf) - 1"
        using q by simp
      from "1.IH" [OF True z this] obtain k where
        k: "take q buf = ?r @ replicate k (CHR ''0'')"
           "length ?r \<le> p + 2 \<or> last ?r \<noteq> CHR ''0''"
           "min (length (take q buf)) (p + 2) \<le> length ?r"
        by blast
      have "buf = take q buf @ [buf ! q]"
        using lq by (metis lessI take_Suc_conv_app_nth take_all_iff le_refl)
      also have "\<dots> = take q buf @ [CHR ''0'']"
        using z by simp
      also have "\<dots> = (?r @ replicate k (CHR ''0'')) @ [CHR ''0'']"
        using k(1) by (rule arg_cong [where f = "\<lambda>x. x @ [CHR ''0'']"])
      also have "\<dots> = ?r @ replicate (Suc k) (CHR ''0'')"
        by (simp add: replicate_append_same)
      finally have "buf = ?r @ replicate (Suc k) (CHR ''0'')" .
      moreover have "min (length buf) (p + 2) \<le> length ?r"
        using k(3) True q by simp
      ultimately show ?thesis
        unfolding e using k(2) by blast
    qed
  qed
qed


lemma strchr_None: "strchr buf c = None \<longleftrightarrow> c \<notin> set buf"
  by (simp add: strchr_def)

lemma strchr_Some: "strchr buf c = Some p \<longleftrightarrow> c \<in> set buf \<and> p = length (takeWhile (\<lambda>x. x \<noteq> c) buf)"
  by (auto simp: strchr_def)

lemma fixup_cases:
  "format_double_fixup buf =
     (if CHR ''e'' \<in> set buf then buf
      else if CHR ''.'' \<notin> set buf then buf @ ''.0''
      else strip_zeros buf (length (takeWhile (\<lambda>x. x \<noteq> CHR ''.'') buf)) (length buf - 1))"
  by (auto simp: format_double_fixup_def strchr_None strchr_Some split: option.splits)

lemma fixup_spec:
  fixes rendered :: string
  defines "p \<equiv> length (takeWhile (\<lambda>x. x \<noteq> CHR ''.'') rendered)"
  defines "out \<equiv> format_double_fixup rendered"
  shows "CHR ''e'' \<in> set rendered \<Longrightarrow> out = rendered"
    and "CHR ''e'' \<notin> set rendered \<Longrightarrow> CHR ''.'' \<notin> set rendered \<Longrightarrow> out = rendered @ ''.0''"
    and "CHR ''e'' \<notin> set rendered \<Longrightarrow> CHR ''.'' \<in> set rendered \<Longrightarrow>
           (\<exists>k. rendered = out @ replicate k (CHR ''0''))
           \<and> (length out \<le> p + 2 \<or> last out \<noteq> CHR ''0'')
           \<and> min (length rendered) (p + 2) \<le> length out"
    and "CHR ''.'' \<in> set out \<or> CHR ''e'' \<in> set out"
proof -
  let ?out = "strip_zeros rendered p (length rendered - 1)"
  obtain k where k: "rendered = ?out @ replicate k (CHR ''0'')"
      "length ?out \<le> p + 2 \<or> last ?out \<noteq> CHR ''0''"
      "min (length rendered) (p + 2) \<le> length ?out"
    using strip_zeros_spec [of "length rendered - 1" rendered p] by blast
  have ex: "\<exists>k. rendered = ?out @ replicate k (CHR ''0'')"
    using k(1) by (rule exI)
  have dot: "CHR ''.'' \<in> set ?out" if "CHR ''.'' \<in> set rendered"
  proof -
    have "set rendered \<subseteq> set ?out \<union> {CHR ''0''}"
      by (subst k(1)) auto
    then show ?thesis
      using that by auto
  qed
  show "CHR ''e'' \<in> set rendered \<Longrightarrow> out = rendered"
    by (simp add: out_def fixup_cases)
  show "CHR ''e'' \<notin> set rendered \<Longrightarrow> CHR ''.'' \<notin> set rendered \<Longrightarrow> out = rendered @ ''.0''"
    by (simp add: out_def fixup_cases)
  show "CHR ''e'' \<notin> set rendered \<Longrightarrow> CHR ''.'' \<in> set rendered \<Longrightarrow>
           (\<exists>k. rendered = out @ replicate k (CHR ''0''))
           \<and> (length out \<le> p + 2 \<or> last out \<noteq> CHR ''0'')
           \<and> min (length rendered) (p + 2) \<le> length out"
    using ex k(2,3) by (simp add: out_def fixup_cases p_def)
  show "CHR ''.'' \<in> set out \<or> CHR ''e'' \<in> set out"
    using dot by (simp add: out_def fixup_cases p_def)
qed

lemma fixup_examples:
  "format_double_fixup ''1.00'' = ''1.0''" "format_double_fixup ''100.00'' = ''100.0''"
  by (simp_all add: fixup_cases strip_zeros.simps)

text \<open>
  C8. For every renderer of \<open>snprintf\<close>, value, precision and flag, with a buffer of at
  least 4 bytes and \<open>rendered\<close> the text \<open>snprintf\<close> left in the buffer: a text with an
  exponent marker \<open>e\<close> is returned as it is; otherwise a text without a decimal point
  gets \<open>.0\<close> appended; otherwise only trailing \<open>0\<close> characters are removed, the removal
  stops at a character that is not \<open>0\<close> or at the digit after the decimal point, and
  that digit is kept. The output always contains a decimal point or an exponent marker.
  When \<open>%.2f\<close> renders the value as \<open>1.00\<close> the result is \<open>1.0\<close>, and \<open>100.00\<close> gives
  \<open>100.0\<close>.
\<close>

theorem format_double_post:
  "(4 \<le> buflen \<and> rendered = take (buflen - 4) (render sci_ok precision val) \<longrightarrow>
     (\<exists>out. libconfig_format_double render val precision sci_ok buflen = Some out
        \<and> (CHR ''e'' \<in> set rendered \<longrightarrow> out = rendered)
        \<and> (CHR ''e'' \<notin> set rendered \<and> CHR ''.'' \<notin> set rendered \<longrightarrow> out = rendered @ ''.0'')
        \<and> (CHR ''e'' \<notin> set rendered \<and> CHR ''.'' \<in> set rendered \<longrightarrow>
             (\<exists>k. rendered = out @ replicate k (CHR ''0''))
             \<and> (length out \<le> length (takeWhile (\<lambda>x. x \<noteq> CHR ''.'') rendered) + 2
                  \<or> last out \<noteq> CHR ''0'')
             \<and> min (length rendered) (length (takeWhile (\<lambda>x. x \<noteq> CHR ''.'') rendered) + 2)
                  \<le> length out)
        \<and> (CHR ''.'' \<in> set out \<or> CHR ''e'' \<in> set out)))
   \<and> (8 \<le> buflen \<and> render False 2 val = ''1.00'' \<longrightarrow>
         libconfig_format_double render val 2 False buflen = Some ''1.0'')
   \<and> (10 \<le> buflen \<and> render False 2 val = ''100.00'' \<longrightarrow>
         libconfig_format_double render val 2 False buflen = Some ''100.0'')"
proof (intro conjI impI)
  assume a: "4 \<le> buflen \<and> rendered = take (buflen - 4) (render sci_ok precision val)"
  then have "libconfig_format_double render val precision sci_ok buflen
             = Some (format_double_fixup rendered)"
    by (simp add: libconfig_format_double_def)
  then show "\<exists>out. libconfig_format_double render val precision sci_ok buflen = Some out
        \<and> (CHR ''e'' \<in> set rendered \<longrightarrow> out = rendered)
        \<and> (CHR ''e'' \<notin> set rendered \<and> CHR ''.'' \<notin> set rendered \<longrightarrow> out = rendered @ ''.0'')
        \<and> (CHR ''e'' \<notin> set rendered \<and> CHR ''.'' \<in> set rendered \<longrightarrow>
             (\<exists>k. rendered = out @ replicate k (CHR ''0''))
             \<and> (length out \<le> length (takeWhile (\<lambda>x. x \<noteq> CHR ''.'') rendered) + 2
                  \<or> last out \<noteq> CHR ''0'')
             \<and> min (length rendered) (length (takeWhile (\<lambda>x. x \<noteq> CHR ''.'') rendered) + 2)
                  \<le> length out)
        \<and> (CHR ''.'' \<in> set out \<or> CHR ''e'' \<in> set out)"
    using fixup_spec [of rendered] by blast
next
  assume a: "8 \<le> buflen \<and> render False 2 val = ''1.00''"
  then have "length ''1.00'' \<le> buflen - 4"
    by simp arith
  then have "take (buflen - 4) ''1.00'' = ''1.00''"
    by (rule take_all)
  then show "libconfig_format_double render val 2 False buflen = Some ''1.0''"
    using a by (simp add: libconfig_format_double_def fixup_examples)
next
  assume a: "10 \<le> buflen \<and> render False 2 val = ''100.00''"
  then have "length ''100.00'' \<le> buflen - 4"
    by simp arith
  then have "take (buflen - 4) ''100.00'' = ''100.00''"
    by (rule take_all)
  then show "libconfig_format_double render val 2 False buflen = Some ''100.0''"
    using a by (simp add: libconfig_format_double_def fixup_examples)
qed

theorem format_double_post_witness:
  "libconfig_format_double (\<lambda>sci_ok precision val. ''1.00'') () 2 False 64 = Some ''1.0''
   \<and> libconfig_format_double (\<lambda>sci_ok precision val. ''100.00'') () 2 False 64 = Some ''100.0''
   \<and> (\<exists>out. libconfig_format_double (\<lambda>sci_ok precision val. ''25'') () 2 False 64 = Some out
        \<and> (CHR ''.'' \<in> set out \<or> CHR ''e'' \<in> set out))"
proof -
  have "\<exists>out. libconfig_format_double (\<lambda>sci_ok precision val. ''25'') () 2 False 64 = Some out
        \<and> (CHR ''.'' \<in> set out \<or> CHR ''e'' \<in> set out)"
    using format_double_post [of 64 "''25''" "\<lambda>sci_ok precision val. ''25''" False 2 "()"]
    by auto
  then show ?thesis
    using format_double_post [of 64 "''1.00''" "\<lambda>sci_ok precision val. ''1.00''" False 2 "()"]
      format_double_post [of 64 "''100.00''" "\<lambda>sci_ok precision val. ''100.00''" False 2 "()"]
    by simp
qed


section \<open>The copier: what a run leaves unchanged\<close>


lemma grown_refl: "grown parent st st"
  by (auto simp: grown_def intro: exI [of _ "[]"])

lemma grown_length: "grown parent st st' \<Longrightarrow> length st \<le> length st'"
  by (simp add: grown_def)

lemma grown_other: "grown parent st st' \<Longrightarrow> a < length st \<Longrightarrow> Some a \<noteq> parent \<Longrightarrow> st' ! a = st ! a"
  by (simp add: grown_def)

lemma grown_trans:
  assumes "grown parent st st1" and "grown parent st1 st2"
  shows "grown parent st st2"
  unfolding grown_def
proof (intro conjI allI impI)
  show "length st \<le> length st2"
    using assms by (auto simp: grown_def)
next
  fix a assume a: "a < length st" "Some a \<noteq> parent"
  then have "a < length st1"
    using assms(1) by (auto simp: grown_def)
  then show "st2 ! a = st ! a"
    using a assms by (simp add: grown_def)
next
  fix a assume a: "a < length st" "Some a = parent"
  then have a1: "a < length st1"
    using assms(1) by (auto simp: grown_def)
  obtain cs where cs: "st1 ! a = (st ! a)\<lparr>s_children := s_children (st ! a) @ cs\<rparr>"
      "\<forall>c\<in>set cs. length st \<le> c"
    using assms(1) a unfolding grown_def by blast
  obtain cs' where cs': "st2 ! a = (st1 ! a)\<lparr>s_children := s_children (st1 ! a) @ cs'\<rparr>"
      "\<forall>c\<in>set cs'. length st1 \<le> c"
    using assms(2) a(2) a1 unfolding grown_def by blast
  have "st2 ! a = (st ! a)\<lparr>s_children := s_children (st ! a) @ (cs @ cs')\<rparr>"
    using cs(1) cs'(1) by simp
  moreover have "\<forall>c\<in>set (cs @ cs'). length st \<le> c"
    using cs(2) cs'(2) grown_length [OF assms(1)] by auto
  ultimately show "\<exists>cs. st2 ! a = (st ! a)\<lparr>s_children := s_children (st ! a) @ cs\<rparr>
                     \<and> (\<forall>c\<in>set cs. length st \<le> c)"
    by blast
qed

lemma grown_fresh:
  assumes "grown parent st st1" and "grown q st1 st2" and "\<And>a. q = Some a \<Longrightarrow> length st \<le> a"
  shows "grown parent st st2"
  unfolding grown_def
proof (intro conjI allI impI)
  show "length st \<le> length st2"
    using assms(1,2) by (auto simp: grown_def)
next
  fix a assume a: "a < length st" "Some a \<noteq> parent"
  then have "a < length st1" "Some a \<noteq> q"
    using assms(1,3) by (auto simp: grown_def)
  then show "st2 ! a = st ! a"
    using a assms(1,2) by (simp add: grown_def)
next
  fix a assume a: "a < length st" "Some a = parent"
  then have "a < length st1" "Some a \<noteq> q"
    using assms(1,3) by (auto simp: grown_def)
  then have "st2 ! a = st1 ! a"
    using assms(2) by (simp add: grown_def)
  then show "\<exists>cs. st2 ! a = (st ! a)\<lparr>s_children := s_children (st ! a) @ cs\<rparr>
               \<and> (\<forall>c\<in>set cs. length st \<le> c)"
    using assms(1) a unfolding grown_def by simp
qed

lemma new_child_grown:
  assumes "node st pa = Some p"
  shows "grown (Some pa) st (new_child st pa p nm ty v)"
proof -
  have pa: "pa < length st" "st ! pa = p"
    using assms by (auto simp: node_def split: if_splits)
  show ?thesis
    unfolding grown_def new_child_def
    using pa by (auto simp: nth_append nth_list_update intro!: exI [of _ "[length st]"])
qed

lemma new_child_length: "length (new_child st pa p nm ty v) = Suc (length st)"
  by (simp add: new_child_def)

lemma add_cases:
  assumes "config_setting_add st parent nm ty = Some (r, st1)"
  obtains (refused) pa p where "parent = Some pa" "node st pa = Some p" "\<not> can_add st p nm ty"
      "r = None" "st1 = st"
    | (added) pa p where "parent = Some pa" "node st pa = Some p" "can_add st p nm ty"
      "r = Some (length st)" "st1 = new_child st pa p nm ty (default_value ty)"
proof (cases parent)
  case None
  then show ?thesis
    using assms by (simp add: config_setting_add_def)
next
  case (Some pa)
  note pa = this
  show ?thesis
  proof (cases "node st pa")
    case None
    then show ?thesis
      using assms pa by (simp add: config_setting_add_def)
  next
    case (Some p)
    note p = this
    show ?thesis
    proof (cases "can_add st p nm ty")
      case True
      then have "r = Some (length st)" "st1 = new_child st pa p nm ty (default_value ty)"
        using assms pa p by (simp_all add: config_setting_add_def)
      then show ?thesis
        using added pa p True by blast
    next
      case False
      then have "r = None" "st1 = st"
        using assms pa p by (simp_all add: config_setting_add_def)
      then show ?thesis
        using refused pa p False by blast
    qed
  qed
qed

lemma append_cases:
  assumes "append_elem st parent ty v = Some (r, st1)"
  obtains (refused) pa p where "parent = Some pa" "node st pa = Some p"
      "\<not> ((config_setting_is_list p \<or> config_setting_is_array p) \<and> can_add st p None ty)"
      "r = None" "st1 = st"
    | (added) pa p where "parent = Some pa" "node st pa = Some p"
      "config_setting_is_list p \<or> config_setting_is_array p" "can_add st p None ty"
      "r = Some (length st)" "st1 = new_child st pa p None ty v"
proof (cases parent)
  case None
  then show ?thesis
    using assms by (simp add: append_elem_def)
next
  case (Some pa)
  note pa = this
  show ?thesis
  proof (cases "node st pa")
    case None
    then show ?thesis
      using assms pa by (simp add: append_elem_def)
  next
    case (Some p)
    note p = this
    show ?thesis
    proof (cases "(config_setting_is_list p \<or> config_setting_is_array p) \<and> can_add st p None ty")
      case True
      then have "r = Some (length st)" "st1 = new_child st pa p None ty v"
        using assms pa p by (simp_all add: append_elem_def)
      then show ?thesis
        using added pa p True by blast
    next
      case False
      then have "r = None" "st1 = st"
        using assms pa p by (auto simp: append_elem_def)
      then show ?thesis
        using refused pa p False by blast
    qed
  qed
qed

lemma add_grown:
  assumes "config_setting_add st parent nm ty = Some (r, st1)"
  shows "grown parent st st1" and "r = None \<Longrightarrow> st1 = st"
    and "r = Some a \<Longrightarrow> a = length st \<and> length st1 = Suc (length st)"
  using assms
  by (cases rule: add_cases; simp add: grown_refl new_child_grown new_child_length)+

lemma append_grown:
  assumes "append_elem st parent ty v = Some (r, st1)"
  shows "grown parent st st1" and "r = None \<Longrightarrow> st1 = st"
    and "r = Some a \<Longrightarrow> a = length st \<and> length st1 = Suc (length st)"
  using assms
  by (cases rule: append_cases; simp add: grown_refl new_child_grown new_child_length)+

lemma update_fresh_grown:
  assumes "grown parent st st1" and "length st \<le> a"
  shows "grown parent st (st1[a := x])"
  using assms by (auto simp: grown_def)

lemma set_value_grown:
  assumes "set_value st1 (Some a) ty v = Some st2" and "grown parent st st1" and "length st \<le> a"
  shows "grown parent st st2"
  using assms update_fresh_grown [OF assms(2,3)]
  by (auto simp: set_value_def split: option.splits if_splits)

lemma set_value_null: "set_value st None ty v = None"
  by (simp add: set_value_def)

lemma set_format_grown:
  assumes "config_setting_set_format st1 (Some a) fmt = Some st2" and "grown parent st st1"
    and "length st \<le> a"
  shows "grown parent st st2"
  using assms update_fresh_grown [OF assms(2,3)]
  by (auto simp: config_setting_set_format_def split: option.splits if_splits)

lemma set_format_null: "config_setting_set_format st None fmt = None"
  by (simp add: config_setting_set_format_def)

lemmas setter_defs =
  config_setting_set_int_def config_setting_set_int64_def config_setting_set_float_def
  config_setting_set_string_def config_setting_set_bool_def

lemmas elem_defs =
  config_setting_set_int_elem_def config_setting_set_int64_elem_def
  config_setting_set_float_elem_def config_setting_set_string_elem_def
  config_setting_set_bool_elem_def


lemma set_value_after_add:
  assumes "config_setting_add st parent nm ty = Some (r, st1)"
    and "set_value st1 r ty' v = Some st2"
  shows "grown parent st st2"
proof (cases r)
  case None
  then show ?thesis using assms(2) by (simp add: set_value_null)
next
  case (Some a)
  then show ?thesis
    using assms add_grown(1,3) [OF assms(1)] set_value_grown [of st1 a ty' v st2 parent st]
    by simp
qed

lemma set_format_after:
  assumes "grown parent st st1" and "\<And>a. r = Some a \<Longrightarrow> length st \<le> a"
    and "config_setting_set_format st1 r fmt = Some st2"
  shows "grown parent st st2"
proof (cases r)
  case None
  then show ?thesis using assms(3) by (simp add: set_format_null)
next
  case (Some b)
  then show ?thesis
    using assms(1,3) assms(2) [of b] set_format_grown [of st1 b fmt st2 parent st] by simp
qed

lemma simple_scalar_grown:
  assumes "config_setting_add st parent nm ty = Some (r, st1)"
    and "(if s_type s1 = TypeInt then
            (case config_setting_set_int st1 r (config_setting_get_int s1) of
               None \<Rightarrow> None
             | Some st2 \<Rightarrow>
                (case node st2 src of
                   None \<Rightarrow> None
                 | Some s2 \<Rightarrow> config_setting_set_format st2 r (s_format s2)))
          else if s_type s1 = TypeInt64 then
            (case config_setting_set_int64 st1 r (config_setting_get_int64 s1) of
               None \<Rightarrow> None
             | Some st2 \<Rightarrow>
                (case node st2 src of
                   None \<Rightarrow> None
                 | Some s2 \<Rightarrow> config_setting_set_format st2 r (s_format s2)))
          else if s_type s1 = TypeFloat then
            config_setting_set_float st1 r (config_setting_get_float s1)
          else if s_type s1 = TypeString then
            config_setting_set_string st1 r (config_setting_get_string s1)
          else if s_type s1 = TypeBoolean then
            config_setting_set_bool st1 r (config_setting_get_bool s1)
          else Some st1) = Some st'"
  shows "grown parent st st'"
proof -
  have fresh: "length st \<le> a" if "r = Some a" for a
    using add_grown(3) [OF assms(1) that] by simp
  have fmt: "grown parent st st'"
    if "set_value st1 r ty' v = Some st2" "config_setting_set_format st2 r f = Some st'"
    for ty' v st2 f
    by (rule set_format_after [OF set_value_after_add [OF assms(1) that(1)] fresh that(2)])
  show ?thesis
    using assms(2) set_value_after_add [OF assms(1)] fmt add_grown(1) [OF assms(1)]
    by (auto simp: setter_defs split: if_splits option.splits)
qed

lemma elem_scalar_grown:
  assumes "(if s_type s = TypeInt then
           (case config_setting_set_int_elem st parent (config_setting_get_int s) of
              None \<Rightarrow> None
            | Some (r, st1) \<Rightarrow>
               (case node st1 src of
                  None \<Rightarrow> None
                | Some s1 \<Rightarrow> config_setting_set_format st1 r (s_format s1)))
         else if s_type s = TypeInt64 then
           (case config_setting_set_int64_elem st parent (config_setting_get_int64 s) of
              None \<Rightarrow> None
            | Some (r, st1) \<Rightarrow>
               (case node st1 src of
                  None \<Rightarrow> None
                | Some s1 \<Rightarrow> config_setting_set_format st1 r (s_format s1)))
         else if s_type s = TypeFloat then
           map_option snd (config_setting_set_float_elem st parent (config_setting_get_float s))
         else if s_type s = TypeString then
           map_option snd (config_setting_set_string_elem st parent (config_setting_get_string s))
         else if s_type s = TypeBoolean then
           map_option snd (config_setting_set_bool_elem st parent (config_setting_get_bool s))
         else Some st) = Some st'"
  shows "grown parent st st'"
proof -
  have fmt: "grown parent st st'"
    if "append_elem st parent ty v = Some (r, st1)" "config_setting_set_format st1 r f = Some st'"
    for ty v r st1 f
    by (rule set_format_after [OF append_grown(1) [OF that(1)] _ that(2)])
      (use append_grown(3) [OF that(1)] in simp)
  have plain: "grown parent st st'" if h: "map_option snd (append_elem st parent ty v) = Some st'" for ty v
  proof -
    obtain x where "append_elem st parent ty v = Some x" "snd x = st'"
      using h unfolding map_option_eq_Some by blast
    then have "append_elem st parent ty v = Some (fst x, st')"
      by (cases x) simp
    then show ?thesis by (rule append_grown(1))
  qed
  show ?thesis
    using assms fmt plain
    by (auto simp: elem_defs grown_refl split: if_splits option.splits)
qed


lemma copy_grown:
  "(config_setting_copy_simple k st parent src = Some st' \<longrightarrow> grown parent st st')
   \<and> (config_setting_copy_elem k st parent src = Some st' \<longrightarrow> grown parent st st')
   \<and> (config_setting_copy_aggregate k st parent src = Some st' \<longrightarrow> grown parent st st')
   \<and> (copy_aggregate_loop k st parent src i n = Some st' \<longrightarrow> grown parent st st')"
proof (induction k arbitrary: st parent src st' i n)
  case 0
  show ?case by simp
next
  case (Suc k)
  have agg: "grown parent st st'" if h: "config_setting_copy_aggregate (Suc k) st parent src = Some st'"
  proof -
    obtain s r st1 s1 where s: "node st src = Some s"
      and add: "config_setting_add st parent (s_name s) (s_type s) = Some (r, st1)"
      and s1: "node st1 src = Some s1"
      and loop: "copy_aggregate_loop k st1 r src 0 (config_setting_length s1) = Some st'"
      using h by (auto split: option.splits)
    have "grown r st1 st'"
      using Suc.IH loop by blast
    moreover have "length st \<le> a" if "r = Some a" for a
      using add_grown(3) [OF add that] by simp
    ultimately show ?thesis
      by (rule grown_fresh [OF add_grown(1) [OF add]])
  qed
  have simple: "grown parent st st'" if h: "config_setting_copy_simple (Suc k) st parent src = Some st'"
  proof -
    obtain s where s: "node st src = Some s"
      using h by (auto split: option.splits)
    show ?thesis
    proof (cases "config_setting_is_aggregate s")
      case True
      then show ?thesis
        using h s Suc.IH by simp
    next
      case False
      then obtain r st1 s1 where add: "config_setting_add st parent (s_name s) (s_type s) = Some (r, st1)"
        and s1: "node st1 src = Some s1"
        using h s by (auto split: option.splits)
      show ?thesis
        using h s False add s1 by (intro simple_scalar_grown [OF add, where ?s1.0 = s1 and src = src]) simp
    qed
  qed
  have elem: "grown parent st st'" if h: "config_setting_copy_elem (Suc k) st parent src = Some st'"
  proof -
    obtain s where s: "node st src = Some s"
      using h by (auto split: option.splits)
    show ?thesis
    proof (cases "config_setting_is_aggregate s")
      case True
      then show ?thesis
        using h s Suc.IH by simp
    next
      case False
      show ?thesis
        using h s False by (intro elem_scalar_grown [where s = s and src = src]) simp
    qed
  qed
  have loop: "grown parent st st'" if h: "copy_aggregate_loop (Suc k) st parent src i n = Some st'"
  proof (cases "i < n")
    case False
    then show ?thesis
      using h by (simp add: grown_refl)
  next
    case True
    then obtain s child st1 where "node st src = Some s" "config_setting_get_elem s i = Some child"
      and one: "(if config_setting_is_group s then config_setting_copy_simple k st parent child
                 else config_setting_copy_elem k st parent child) = Some st1"
      and rest: "copy_aggregate_loop k st1 parent src (i + 1) n = Some st'"
      using h by (auto split: option.splits)
    have "grown parent st st1"
      using one Suc.IH by (auto split: if_splits)
    moreover have "grown parent st1 st'"
      using rest Suc.IH by blast
    ultimately show ?thesis
      by (rule grown_trans)
  qed
  show ?case
    using agg simple elem loop by blast
qed


subsection \<open>Subtrees and their addresses\<close>


lemma reach_valid: "b \<in> reach st a \<Longrightarrow> b < length st"
  by (induction rule: reach.induct) simp_all

lemma reach_trans: "c \<in> reach st b \<Longrightarrow> b \<in> reach st a \<Longrightarrow> c \<in> reach st a"
  by (induction rule: reach.induct) (auto intro: reach.intros)

lemma reach_kid_subset:
  assumes "a < length st" and "c \<in> set (kids (st ! a))" and "c < length st"
  shows "reach st c \<subseteq> reach st a"
proof -
  have "c \<in> reach st a"
    using assms by (auto intro: reach.intros)
  then show ?thesis
    using reach_trans by blast
qed

lemma reach_closed:
  assumes "a \<in> A" and "\<And>b c. b \<in> A \<Longrightarrow> b < length st \<Longrightarrow> c \<in> set (kids (st ! b)) \<Longrightarrow> c < length st \<Longrightarrow> c \<in> A"
  shows "reach st a \<subseteq> A"
proof
  fix b assume "b \<in> reach st a"
  then show "b \<in> A"
    using assms by (induction rule: reach.induct) (auto dest: reach_valid)
qed

lemma repr_on_mono: "repr_on st A a t \<Longrightarrow> A \<subseteq> B \<Longrightarrow> repr_on st B a t"
proof (induction rule: repr_on.induct)
  case (repr_on_node a s ts)
  have "list_all2 (repr_on st B) (kids s) ts"
    using repr_on_node.IH repr_on_node.prems by (auto elim!: list_all2_mono)
  then show ?case
    using repr_on_node.hyps repr_on_node.prems by (auto intro: repr_on.intros)
qed

lemma repr_on_frame:
  "repr_on st A a t \<Longrightarrow> (\<And>b. b \<in> A \<Longrightarrow> b < length st \<Longrightarrow> node st' b = node st b) \<Longrightarrow> repr_on st' A a t"
proof (induction rule: repr_on.induct)
  case (repr_on_node a s ts)
  have "a < length st"
    using repr_on_node.hyps by (auto simp: node_def split: if_splits)
  then have "node st' a = Some s"
    using repr_on_node.hyps repr_on_node.prems by simp
  moreover have "list_all2 (repr_on st' A) (kids s) ts"
    using repr_on_node.IH repr_on_node.prems by (auto elim!: list_all2_mono)
  ultimately show ?case
    using repr_on_node.hyps by (auto intro: repr_on.intros)
qed

lemma repr_on_repr: "repr_on st A a t \<Longrightarrow> repr st a t"
proof (induction rule: repr_on.induct)
  case (repr_on_node a s ts)
  have "list_all2 (repr st) (kids s) ts"
    using repr_on_node.IH by (auto elim!: list_all2_mono)
  then show ?case
    using repr_on_node.hyps by (auto intro: repr.intros)
qed

lemma repr_reach: "repr st a t \<Longrightarrow> repr_on st (reach st a) a t"
proof (induction rule: repr.induct)
  case (repr_node a s ts)
  have a: "a < length st" "st ! a = s"
    using repr_node.hyps by (auto simp: node_def split: if_splits)
  have ih: "length (kids s) = length ts"
    "\<And>i. i < length (kids s) \<Longrightarrow> repr_on st (reach st (kids s ! i)) (kids s ! i) (ts ! i)"
    using repr_node.IH by (auto simp: list_all2_conv_all_nth)
  have "repr_on st (reach st a) (kids s ! i) (ts ! i)" if i: "i < length (kids s)" for i
  proof -
    have "kids s ! i < length st"
      using ih(2) [OF i] by (auto elim: repr_on.cases simp: node_def split: if_splits)
    then have "reach st (kids s ! i) \<subseteq> reach st a"
      using reach_kid_subset [of a st "kids s ! i"] a i by simp
    then show ?thesis
      using ih(2) [OF i] repr_on_mono by blast
  qed
  then have "list_all2 (repr_on st (reach st a)) (kids s) ts"
    using ih(1) by (simp add: list_all2_conv_all_nth)
  then show ?case
    using repr_node.hyps a by (auto intro!: repr_on.intros reach.intros)
qed

lemma repr_on_node_at:
  assumes "repr_on st A a t"
  shows "a \<in> A" and "a < length st" and "s_name (st ! a) = t_name t" and "s_type (st ! a) = t_type t"
    and "s_format (st ! a) = t_format t" and "s_value (st ! a) = t_value t"
    and "list_all2 (repr_on st A) (kids (st ! a)) (t_kids t)"
  using assms by (auto elim!: repr_on.cases simp: node_def split: if_splits)

lemma grown_frame:
  assumes "grown parent st st'" and "parent \<noteq> Some a" and "a < length st"
  shows "node st' a = node st a"
  using assms by (auto simp: grown_def node_def)


lemma value_matches_get:
  assumes "value_matches (s_type s) (s_value s)"
  shows "s_type s = TypeInt \<Longrightarrow> IntValue (config_setting_get_int s) = s_value s"
    and "s_type s = TypeInt64 \<Longrightarrow> Int64Value (config_setting_get_int64 s) = s_value s"
    and "s_type s = TypeFloat \<Longrightarrow> FloatValue (config_setting_get_float s) = s_value s"
    and "s_type s = TypeString \<Longrightarrow> StringValue (config_setting_get_string s) = s_value s"
    and "s_type s = TypeBoolean \<Longrightarrow> BoolValue (config_setting_get_bool s) = s_value s"
    and "is_aggregate_type (s_type s) \<Longrightarrow> s_value s = NoValue"
    and "s_type s \<noteq> TypeNone"
  using assms
  by (cases "s_type s"; cases "s_value s";
      simp add: config_setting_get_int_def config_setting_get_int64_def config_setting_get_float_def
        config_setting_get_string_def config_setting_get_bool_def is_aggregate_type_def)+

lemma node_Some: "node st a = Some s \<longleftrightarrow> a < length st \<and> st ! a = s"
  by (auto simp: node_def)

lemma copied_leaf:
  assumes "node st q = Some pn" and "\<not> config_setting_is_aggregate x"
  shows "copied st q pn (Tree (s_name x) (s_type x) (s_format x) (s_value x) [])
           (st[q := pn\<lparr>s_children := s_children pn @ [length st]\<rparr>] @ [x])"
proof -
  let ?st' = "st[q := pn\<lparr>s_children := s_children pn @ [length st]\<rparr>] @ [x]"
  have q: "q < length st"
    using assms(1) by (simp add: node_Some)
  have "node ?st' (length st) = Some x"
    by (simp add: node_def nth_append)
  moreover have "kids x = []"
    using assms(2) by (simp add: kids_def)
  ultimately have "repr_on ?st' {length st..<length ?st'} (length st)
      (Tree (s_name x) (s_type x) (s_format x) (s_value x) [])"
    by (intro repr_on.intros) simp_all
  then show ?thesis
    using q by (simp add: copied_def nth_append)
qed

lemma can_add_aggregate: "can_add st pn nm ty \<Longrightarrow> config_setting_is_aggregate pn"
  by (simp add: can_add_def)

lemma scalar_not_aggregate:
  "is_scalar_type (s_type s) \<Longrightarrow> \<not> config_setting_is_aggregate s"
  by (auto simp: is_scalar_type_def config_setting_is_aggregate_def)

lemma scalar_simple_total:
  assumes s: "node st src = Some s" and sc: "is_scalar_type (s_type s)"
    and vm: "value_matches (s_type s) (s_value s)"
    and q: "node st q = Some pn" and ca: "can_add st pn (s_name s) (s_type s)"
  shows "\<exists>st'. (\<forall>k. config_setting_copy_simple (Suc k) st (Some q) src = Some st')
     \<and> copied st q pn
         (Tree (if config_setting_is_group pn then s_name s else None) (s_type s)
            (if s_type s = TypeInt \<or> s_type s = TypeInt64 then s_format s else FormatDefault)
            (s_value s) []) st'"
proof -
  define base where "base = st[q := pn\<lparr>s_children := s_children pn @ [length st]\<rparr>]"
  define nn where "nn = \<lparr>s_name = (if config_setting_is_group pn then s_name s else None),
     s_type = s_type s, s_format = FormatDefault, s_value = default_value (s_type s),
     s_children = [], s_parent = Some q\<rparr>"
  have na: "\<not> config_setting_is_aggregate s"
    using sc by (rule scalar_not_aggregate)
  have neq: "src \<noteq> q"
    using s q na can_add_aggregate [OF ca] by auto
  have lens: "src < length st" "q < length st" "length base = length st"
    using s q by (simp_all add: node_Some base_def)
  have upd: "(base @ [y])[length st := z] = base @ [z]" for y z
    using lens(3) by (simp add: list_update_append)
  have add: "config_setting_add st (Some q) (s_name s) (s_type s) = Some (Some (length st), base @ [nn])"
    using q ca by (simp add: config_setting_add_def new_child_def base_def nn_def)
  have rd: "node (base @ [x]) src = Some s" for x
    using s neq lens by (simp add: node_def nth_append base_def)
  have setv: "set_value (base @ [nn]) (Some (length st)) (s_type s) v = Some (base @ [nn\<lparr>s_value := v\<rparr>])" for v
    using lens by (simp add: set_value_def node_def nth_append nn_def upd)
  have setf: "config_setting_set_format (base @ [x]) (Some (length st)) f
      = Some (base @ [if s_type x = TypeInt \<or> s_type x = TypeInt64 then x\<lparr>s_format := f\<rparr> else x])" for x f
    using lens by (simp add: config_setting_set_format_def node_def nth_append upd)
  define x where "x = nn\<lparr>s_value := s_value s,
     s_format := (if s_type s = TypeInt \<or> s_type s = TypeInt64 then s_format s else FormatDefault)\<rparr>"
  have nax: "\<not> config_setting_is_aggregate x"
    using na by (simp add: x_def nn_def config_setting_is_aggregate_def)
  have run: "config_setting_copy_simple (Suc k) st (Some q) src = Some (base @ [x])" for k
  proof -
    consider "s_type s = TypeInt" | "s_type s = TypeInt64" | "s_type s = TypeFloat"
      | "s_type s = TypeString" | "s_type s = TypeBoolean"
      using sc by (auto simp: is_scalar_type_def)
    then show ?thesis
    proof cases
      case 1
      then show ?thesis
        using s na add rd setv setf value_matches_get(1) [OF vm]
        by (simp add: config_setting_set_int_def x_def nn_def)
    next
      case 2
      then show ?thesis
        using s na add rd setv setf value_matches_get(2) [OF vm]
        by (simp add: config_setting_set_int64_def x_def nn_def)
    next
      case 3
      then show ?thesis
        using s na add rd setv value_matches_get(3) [OF vm]
        by (simp add: config_setting_set_float_def x_def nn_def)
    next
      case 4
      then show ?thesis
        using s na add rd setv value_matches_get(4) [OF vm]
        by (simp add: config_setting_set_string_def x_def nn_def)
    next
      case 5
      then show ?thesis
        using s na add rd setv value_matches_get(5) [OF vm]
        by (simp add: config_setting_set_bool_def x_def nn_def)
    qed
  qed
  have "copied st q pn (Tree (s_name x) (s_type x) (s_format x) (s_value x) []) (base @ [x])"
    unfolding base_def by (rule copied_leaf [OF q nax])
  then show ?thesis
    using run by (simp add: x_def nn_def)
qed

lemma scalar_elem_total:
  assumes s: "node st src = Some s" and sc: "is_scalar_type (s_type s)"
    and vm: "value_matches (s_type s) (s_value s)"
    and q: "node st q = Some pn" and ca: "can_add st pn None (s_type s)"
    and la: "config_setting_is_list pn \<or> config_setting_is_array pn"
  shows "\<exists>st'. (\<forall>k. config_setting_copy_elem (Suc k) st (Some q) src = Some st')
     \<and> copied st q pn
         (Tree None (s_type s)
            (if s_type s = TypeInt \<or> s_type s = TypeInt64 then s_format s else FormatDefault)
            (s_value s) []) st'"
proof -
  define base where "base = st[q := pn\<lparr>s_children := s_children pn @ [length st]\<rparr>]"
  define nn where "nn = \<lparr>s_name = None,
     s_type = s_type s, s_format = FormatDefault, s_value = s_value s,
     s_children = [], s_parent = Some q\<rparr>"
  have ng: "\<not> config_setting_is_group pn"
    using la by (auto simp: config_setting_is_group_def config_setting_is_list_def config_setting_is_array_def)
  have na: "\<not> config_setting_is_aggregate s"
    using sc by (rule scalar_not_aggregate)
  have neq: "src \<noteq> q"
    using s q na can_add_aggregate [OF ca] by auto
  have lens: "src < length st" "q < length st" "length base = length st"
    using s q by (simp_all add: node_Some base_def)
  have upd: "(base @ [y])[length st := z] = base @ [z]" for y z
    using lens(3) by (simp add: list_update_append)
  have app: "append_elem st (Some q) (s_type s) (s_value s) = Some (Some (length st), base @ [nn])"
    using q ca la ng by (simp add: append_elem_def new_child_def base_def nn_def)
  have rd: "node (base @ [x]) src = Some s" for x
    using s neq lens by (simp add: node_def nth_append base_def)
  have setf: "config_setting_set_format (base @ [x]) (Some (length st)) f
      = Some (base @ [if s_type x = TypeInt \<or> s_type x = TypeInt64 then x\<lparr>s_format := f\<rparr> else x])" for x f
    using lens by (simp add: config_setting_set_format_def node_def nth_append upd)
  define x where "x = nn\<lparr>s_format := (if s_type s = TypeInt \<or> s_type s = TypeInt64 then s_format s else FormatDefault)\<rparr>"
  have nax: "\<not> config_setting_is_aggregate x"
    using na by (simp add: x_def nn_def config_setting_is_aggregate_def)
  have run: "config_setting_copy_elem (Suc k) st (Some q) src = Some (base @ [x])" for k
  proof -
    consider "s_type s = TypeInt" | "s_type s = TypeInt64" | "s_type s = TypeFloat"
      | "s_type s = TypeString" | "s_type s = TypeBoolean"
      using sc by (auto simp: is_scalar_type_def)
    then show ?thesis
    proof cases
      case 1
      then show ?thesis
        using s na app rd setf value_matches_get(1) [OF vm]
        by (simp add: config_setting_set_int_elem_def x_def nn_def)
    next
      case 2
      then show ?thesis
        using s na app rd setf value_matches_get(2) [OF vm]
        by (simp add: config_setting_set_int64_elem_def x_def nn_def)
    next
      case 3
      then show ?thesis
        using s na app value_matches_get(3) [OF vm]
        by (simp add: config_setting_set_float_elem_def x_def nn_def)
    next
      case 4
      then show ?thesis
        using s na app value_matches_get(4) [OF vm]
        by (simp add: config_setting_set_string_elem_def x_def nn_def)
    next
      case 5
      then show ?thesis
        using s na app value_matches_get(5) [OF vm]
        by (simp add: config_setting_set_bool_elem_def x_def nn_def)
    qed
  qed
  have "copied st q pn (Tree (s_name x) (s_type x) (s_format x) (s_value x) []) (base @ [x])"
    unfolding base_def by (rule copied_leaf [OF q nax])
  then show ?thesis
    using run by (simp add: x_def nn_def)
qed


section \<open>The copier: every run on a well-formed source returns\<close>


lemma returns_const: "(\<And>k. f (Suc k) = Some st') \<Longrightarrow> returns f st'"
  unfolding returns_def
proof (intro exI [of _ 1] allI impI)
  fix k :: nat assume "1 \<le> k"
  then obtain k' where "k = Suc k'"
    by (cases k) auto
  moreover assume "\<And>k. f (Suc k) = Some st'"
  ultimately show "f k = Some st'"
    by simp
qed

lemma returns_Suc:
  assumes "returns f st'" and "\<And>k. g (Suc k) = f k"
  shows "returns g st'"
proof -
  obtain k0 where k0: "\<forall>k\<ge>k0. f k = Some st'"
    using assms(1) by (auto simp: returns_def)
  have "g k = Some st'" if le: "Suc k0 \<le> k" for k
  proof -
    obtain k' where "k = Suc k'" "k0 \<le> k'"
      using le by (cases k) auto
    then show ?thesis
      using k0 assms(2) by simp
  qed
  then show ?thesis
    unfolding returns_def by blast
qed

lemma clone_of_sel [simp]:
  "t_name (clone_of named t) = (if named then t_name t else None)"
  "t_type (clone_of named t) = t_type t"
  by (cases t; simp)+

lemma aggregate_type_iff: "config_setting_is_aggregate s \<longleftrightarrow> is_aggregate_type (s_type s)"
  by (simp add: config_setting_is_aggregate_def is_aggregate_type_def)

lemma can_add_next:
  assumes cp: "copyable (Tree nm ty fmt v ts)" and agg: "is_aggregate_type ty" and i: "i < length ts"
    and ty: "s_type pn = ty"
    and ds: "list_all2 (repr_on st B) (s_children pn) (map (clone_of (ty = TypeGroup)) (take i ts))"
  shows "can_add st pn (t_name (ts ! i)) (t_type (ts ! i))"
proof -
  let ?ds = "s_children pn"
  have ag: "config_setting_is_aggregate pn"
    using agg ty by (simp add: aggregate_type_iff)
  then have kids: "kids pn = ?ds"
    by (simp add: kids_def)
  have len: "length ?ds = i"
    using ds i by (auto dest: list_all2_lengthD)
  have d: "?ds ! j < length st \<and> s_type (st ! (?ds ! j)) = t_type (ts ! j)
      \<and> s_name (st ! (?ds ! j)) = (if ty = TypeGroup then t_name (ts ! j) else None)"
    if "j < i" for j
  proof -
    have "repr_on st B (?ds ! j) (clone_of (ty = TypeGroup) (ts ! j))"
      using ds that i len by (auto simp: list_all2_conv_all_nth)
    then show ?thesis
      using repr_on_node_at(2,3,4) [of st B "?ds ! j" "clone_of (ty = TypeGroup) (ts ! j)"] by simp
  qed
  have all: "filter (\<lambda>c. c < length st) ?ds = ?ds"
    using d len by (auto simp: filter_id_conv in_set_conv_nth)
  have cs: "child_settings st pn = map (\<lambda>c. st ! c) ?ds"
    by (simp add: child_settings_def kids all)
  have arr: "is_scalar_type (t_type (ts ! i))
      \<and> list_all (\<lambda>c. s_type c = t_type (ts ! i)) (child_settings st pn)" if "ty = TypeArray"
  proof -
    have h: "\<forall>k\<in>set ts. is_scalar_type (t_type k) \<and> t_type k = t_type (hd ts)"
      using cp that by (auto simp: list_all_iff)
    have e: "is_scalar_type (t_type (ts ! j)) \<and> t_type (ts ! j) = t_type (hd ts)" if "j < length ts" for j
      using h nth_mem [OF that] by blast
    have "s_type (st ! (?ds ! j)) = t_type (ts ! i)" if "j < i" for j
      using d [OF that] e [of j] e [of i] i that by simp
    moreover have "is_scalar_type (t_type (ts ! i))"
      using e [OF i] by blast
    ultimately show ?thesis
      using len by (auto simp: cs list_all_iff in_set_conv_nth)
  qed
  have grp: "list_all (\<lambda>c. s_name c \<noteq> t_name (ts ! i)) (child_settings st pn)"
    if "ty = TypeGroup"
  proof -
    have dist: "distinct (map t_name ts)"
      using cp that by simp
    have "s_name (st ! (?ds ! j)) \<noteq> t_name (ts ! i)" if j: "j < i" for j
    proof -
      have "j < length (map t_name ts)" "i < length (map t_name ts)" "j \<noteq> i"
        using j i by simp_all
      then have "map t_name ts ! j \<noteq> map t_name ts ! i"
        using dist nth_eq_iff_index_eq by blast
      then show ?thesis
        using d [OF j] \<open>ty = TypeGroup\<close> i j by simp
    qed
    then show ?thesis
      using len by (auto simp: cs list_all_iff in_set_conv_nth)
  qed
  show ?thesis
    using ag arr grp ty
    by (simp add: can_add_def config_setting_is_array_def config_setting_is_group_def)
qed


lemma loop_total:
  assumes IH: "\<And>t' st A src q pn. t' \<in> set ts \<Longrightarrow> repr_on st A src t' \<Longrightarrow> copyable t'
      \<Longrightarrow> (\<forall>a\<in>A. a < length st) \<Longrightarrow> q \<notin> A \<Longrightarrow> node st q = Some pn
      \<Longrightarrow> can_add st pn (t_name t') (t_type t') \<Longrightarrow> copy_ok st q pn src t'"
    and cp: "copyable (Tree nm ty fmt v ts)" and agg: "is_aggregate_type ty"
    and bound: "\<forall>a\<in>A. a < na" and src: "src \<in> A" and s: "s_type s = ty"
  shows "na < length st \<Longrightarrow> s_type (st ! na) = ty
     \<Longrightarrow> list_all2 (repr_on st {na<..<length st}) (s_children (st ! na))
           (map (clone_of (ty = TypeGroup)) (take i ts))
     \<Longrightarrow> node st src = Some s \<Longrightarrow> list_all2 (repr_on st A) (kids s) ts \<Longrightarrow> i \<le> length ts
     \<Longrightarrow> \<exists>st'. returns (\<lambda>k. copy_aggregate_loop k st (Some na) src i (length ts)) st'
          \<and> length st \<le> length st' \<and> (\<forall>a<length st. a \<noteq> na \<longrightarrow> st' ! a = st ! a)
          \<and> (\<exists>ds'. st' ! na = (st ! na)\<lparr>s_children := ds'\<rparr>
               \<and> list_all2 (repr_on st' {na<..<length st'}) ds' (map (clone_of (ty = TypeGroup)) ts))"
proof (induction "length ts - i" arbitrary: i st)
  case 0
  then have i: "i = length ts"
    by simp
  have "copy_aggregate_loop (Suc k) st (Some na) src i (length ts) = Some st" for k
    using i by simp
  then have "returns (\<lambda>k. copy_aggregate_loop k st (Some na) src i (length ts)) st"
    by (rule returns_const)
  moreover have "st ! na = (st ! na)\<lparr>s_children := s_children (st ! na)\<rparr>"
    by simp
  moreover have "list_all2 (repr_on st {na<..<length st}) (s_children (st ! na))
      (map (clone_of (ty = TypeGroup)) ts)"
    using "0.prems"(3) i by simp
  ultimately show ?case
    by blast
next
  case (Suc m)
  then have i: "i < length ts"
    by simp
  let ?pn = "st ! na"
  let ?t = "ts ! i"
  let ?c = "kids s ! i"
  let ?cl = "clone_of (ty = TypeGroup)"
  have len: "length (kids s) = length ts"
    using Suc.prems(5) by (rule list_all2_lengthD)
  have child: "repr_on st A ?c ?t"
    using Suc.prems(5) i by (simp add: list_all2_conv_all_nth)
  have mem: "?t \<in> set ts"
    using i by simp
  have cpt: "copyable ?t"
    using cp mem by (simp add: list_all_iff)
  have A: "\<forall>a\<in>A. a < length st"
    using bound Suc.prems(1) by auto
  have naA: "na \<notin> A"
    using bound by auto
  have pn: "node st na = Some ?pn"
    using Suc.prems(1) by (simp add: node_def)
  have ca: "can_add st ?pn (t_name ?t) (t_type ?t)"
    by (rule can_add_next [OF cp agg i Suc.prems(2) Suc.prems(3)])
  have ok: "copy_ok st na ?pn ?c ?t"
    by (rule IH [OF mem child cpt A naA pn ca])
  have grp: "config_setting_is_group ?pn \<longleftrightarrow> ty = TypeGroup"
    using Suc.prems(2) by (simp add: config_setting_is_group_def)
  have sgrp: "config_setting_is_group s \<longleftrightarrow> ty = TypeGroup"
    using s by (simp add: config_setting_is_group_def)
  have la: "config_setting_is_list ?pn \<or> config_setting_is_array ?pn" if "ty \<noteq> TypeGroup"
    using that agg Suc.prems(2)
    by (auto simp: is_aggregate_type_def config_setting_is_list_def config_setting_is_array_def)
  have "\<exists>st1. returns (\<lambda>k. if config_setting_is_group s
                 then config_setting_copy_simple k st (Some na) ?c
                 else config_setting_copy_elem k st (Some na) ?c) st1
           \<and> copied st na ?pn (?cl ?t) st1"
  proof (cases "ty = TypeGroup")
    case True
    then show ?thesis
      using ok sgrp grp unfolding copy_ok_def by simp
  next
    case False
    then show ?thesis
      using ok sgrp grp la unfolding copy_ok_def by simp
  qed
  then obtain st1 where step: "returns (\<lambda>k. if config_setting_is_group s
                 then config_setting_copy_simple k st (Some na) ?c
                 else config_setting_copy_elem k st (Some na) ?c) st1"
    and cpd: "copied st na ?pn (?cl ?t) st1"
    by blast
  have l1: "length st < length st1"
    and q1: "st1 ! na = ?pn\<lparr>s_children := s_children ?pn @ [length st]\<rparr>"
    and f1: "\<forall>a<length st. a \<noteq> na \<longrightarrow> st1 ! a = st ! a"
    and r1: "repr_on st1 {length st..<length st1} (length st) (?cl ?t)"
    using cpd by (simp_all add: copied_def)
  have nodes: "node st1 b = node st b" if "b < length st" "b \<noteq> na" for b
    using that f1 l1 by (simp add: node_def)
  have p1: "na < length st1"
    using Suc.prems(1) l1 by simp
  have p2: "s_type (st1 ! na) = ty"
    using q1 Suc.prems(2) by simp
  have old: "list_all2 (repr_on st1 {na<..<length st1}) (s_children ?pn) (map ?cl (take i ts))"
    using Suc.prems(3)
  proof (rule list_all2_mono)
    fix d t' assume "repr_on st {na<..<length st} d t'"
    then have "repr_on st1 {na<..<length st} d t'"
      by (rule repr_on_frame) (use nodes in auto)
    then show "repr_on st1 {na<..<length st1} d t'"
      by (rule repr_on_mono) (use l1 in auto)
  qed
  have new: "repr_on st1 {na<..<length st1} (length st) (?cl ?t)"
    using r1 by (rule repr_on_mono) (use Suc.prems(1) in auto)
  have p3: "list_all2 (repr_on st1 {na<..<length st1}) (s_children (st1 ! na))
      (map ?cl (take (Suc i) ts))"
    unfolding q1 using old new i by (simp add: take_Suc_conv_app_nth list_all2_appendI)
  have p4: "node st1 src = Some s"
    using nodes [of src] src bound Suc.prems(1,4) by auto
  have p5: "list_all2 (repr_on st1 A) (kids s) ts"
    using Suc.prems(5)
  proof (rule list_all2_mono)
    fix d t' assume "repr_on st A d t'"
    then show "repr_on st1 A d t'"
      by (rule repr_on_frame) (use nodes bound in auto)
  qed
  have p6: "Suc i \<le> length ts"
    using i by simp
  have m: "m = length ts - Suc i"
    using Suc.hyps(2) by simp
  obtain st' ds' where rest: "returns (\<lambda>k. copy_aggregate_loop k st1 (Some na) src (Suc i) (length ts)) st'"
    and l2: "length st1 \<le> length st'"
    and f2: "\<forall>a<length st1. a \<noteq> na \<longrightarrow> st' ! a = st1 ! a"
    and q2: "st' ! na = (st1 ! na)\<lparr>s_children := ds'\<rparr>"
    and r2: "list_all2 (repr_on st' {na<..<length st'}) ds' (map ?cl ts)"
    using Suc.hyps(1) [OF m p1 p2 p3 p4 p5 p6] by blast
  have run: "returns (\<lambda>k. copy_aggregate_loop k st (Some na) src i (length ts)) st'"
  proof -
    obtain k1 where k1: "\<forall>k\<ge>k1. (if config_setting_is_group s
                 then config_setting_copy_simple k st (Some na) ?c
                 else config_setting_copy_elem k st (Some na) ?c) = Some st1"
      using step by (auto simp: returns_def)
    obtain k2 where k2: "\<forall>k\<ge>k2. copy_aggregate_loop k st1 (Some na) src (Suc i) (length ts) = Some st'"
      using rest by (auto simp: returns_def)
    have ge: "config_setting_get_elem s i = Some ?c"
      using i len by (simp add: config_setting_get_elem_def)
    have "copy_aggregate_loop k st (Some na) src i (length ts) = Some st'" if le: "Suc (max k1 k2) \<le> k" for k
    proof -
      obtain k' where k': "k = Suc k'" "k1 \<le> k'" "k2 \<le> k'"
        using le by (cases k) auto
      have a: "(if config_setting_is_group s
                 then config_setting_copy_simple k' st (Some na) ?c
                 else config_setting_copy_elem k' st (Some na) ?c) = Some st1"
        using k1 k'(2) by blast
      have b: "copy_aggregate_loop k' st1 (Some na) src (Suc i) (length ts) = Some st'"
        using k2 k'(3) by blast
      show ?thesis
        unfolding k'(1) using i Suc.prems(4) ge a b by simp
    qed
    then show ?thesis
      unfolding returns_def by blast
  qed
  have "length st \<le> length st'"
    using l1 l2 by simp
  moreover have "\<forall>a<length st. a \<noteq> na \<longrightarrow> st' ! a = st ! a"
    using f1 f2 l1 by auto
  moreover have "st' ! na = ?pn\<lparr>s_children := ds'\<rparr>"
    using q1 q2 by simp
  ultimately show ?case
    using run r2 by blast
qed


lemma can_add_positional:
  "\<not> config_setting_is_group pn \<Longrightarrow> can_add st pn nm ty = can_add st pn None ty"
  by (simp add: can_add_def)

lemma copy_total:
  "repr_on st A src t \<Longrightarrow> copyable t \<Longrightarrow> (\<forall>a\<in>A. a < length st) \<Longrightarrow> q \<notin> A
   \<Longrightarrow> node st q = Some pn \<Longrightarrow> can_add st pn (t_name t) (t_type t) \<Longrightarrow> copy_ok st q pn src t"
proof (induction t arbitrary: st A src q pn)
  case (Tree nm ty fmt v ts)
  let ?t = "Tree nm ty fmt v ts"
  let ?g = "config_setting_is_group pn"
  obtain s where s: "node st src = Some s" and srcA: "src \<in> A"
    and fields: "s_name s = nm" "s_type s = ty" "s_format s = fmt" "s_value s = v"
    and kd: "list_all2 (repr_on st A) (kids s) ts"
    using Tree.prems(1) by (auto elim: repr_on.cases)
  have vm: "value_matches (s_type s) (s_value s)"
    using Tree.prems(2) fields by simp
  have ca: "can_add st pn nm ty"
    using Tree.prems(6) by simp
  have q: "q < length st" "st ! q = pn"
    using Tree.prems(5) by (simp_all add: node_Some)
  show ?case
  proof (cases "is_aggregate_type ty")
    case False
    then have na: "\<not> config_setting_is_aggregate s"
      using fields by (simp add: aggregate_type_iff)
    have sc: "is_scalar_type (s_type s)"
      using False value_matches_get(7) [OF vm] fields
      by (cases ty) (simp_all add: is_scalar_type_def is_aggregate_type_def)
    have ts: "ts = []"
      using kd na by (simp add: kids_def)
    have cl: "clone_of ?g ?t = Tree (if ?g then s_name s else None) (s_type s)
        (if s_type s = TypeInt \<or> s_type s = TypeInt64 then s_format s else FormatDefault) (s_value s) []"
      using fields ts by simp
    obtain st1 where r1: "\<forall>k. config_setting_copy_simple (Suc k) st (Some q) src = Some st1"
      and c1: "copied st q pn (clone_of ?g ?t) st1"
      using scalar_simple_total [OF s sc vm Tree.prems(5)] ca fields unfolding cl by blast
    have simple: "\<exists>st'. returns (\<lambda>k. config_setting_copy_simple k st (Some q) src) st'
        \<and> copied st q pn (clone_of ?g ?t) st'"
      using r1 c1 returns_const [of "\<lambda>k. config_setting_copy_simple k st (Some q) src" st1] by blast
    have elem: "\<exists>st'. returns (\<lambda>k. config_setting_copy_elem k st (Some q) src) st'
        \<and> copied st q pn (clone_of ?g ?t) st'"
      if la: "config_setting_is_list pn \<or> config_setting_is_array pn"
    proof -
      have ng: "\<not> ?g"
        using la by (auto simp: config_setting_is_group_def config_setting_is_list_def
            config_setting_is_array_def)
      then have ca': "can_add st pn None (s_type s)"
        using ca fields can_add_positional [of pn st nm ty] by simp
      obtain st2 where r2: "\<forall>k. config_setting_copy_elem (Suc k) st (Some q) src = Some st2"
        and c2: "copied st q pn (clone_of ?g ?t) st2"
        using scalar_elem_total [OF s sc vm Tree.prems(5) ca' la] ng unfolding cl by auto
      show ?thesis
        using r2 c2 returns_const [of "\<lambda>k. config_setting_copy_elem k st (Some q) src" st2] by blast
    qed
    show ?thesis
      unfolding copy_ok_def using simple elem False by simp
  next
    case True
    then have ag: "config_setting_is_aggregate s"
      using fields by (simp add: aggregate_type_iff)
    have v: "v = NoValue"
      using value_matches_get(6) [OF vm] fields True by simp
    have dv: "default_value ty = NoValue"
      using True by (auto simp: is_aggregate_type_def default_value_def)
    have src: "src < length st" "st ! src = s" "src \<noteq> q"
      using s srcA Tree.prems(4) by (auto simp: node_Some)
    define na where "na = length st"
    define nn where "nn = \<lparr>s_name = (if ?g then nm else None), s_type = ty,
       s_format = FormatDefault, s_value = NoValue, s_children = [], s_parent = Some q\<rparr>"
    define st1 where "st1 = st[q := pn\<lparr>s_children := s_children pn @ [na]\<rparr>] @ [nn]"
    have add: "config_setting_add st (Some q) (s_name s) (s_type s) = Some (Some na, st1)"
      using Tree.prems(5) ca fields dv
      by (simp add: config_setting_add_def new_child_def st1_def nn_def na_def)
    have l1: "length st1 = Suc na"
      by (simp add: st1_def na_def)
    have old1: "st1 ! a = st ! a" if "a < length st" "a \<noteq> q" for a
      using that by (simp add: st1_def nth_append)
    have q1: "st1 ! q = pn\<lparr>s_children := s_children pn @ [na]\<rparr>"
      using q by (simp add: st1_def nth_append)
    have n1: "st1 ! na = nn"
      by (simp add: st1_def na_def nth_append)
    have s1: "node st1 src = Some s"
      using src old1 [of src] l1 by (simp add: node_def na_def)
    have bound: "\<forall>a\<in>A. a < na"
      using Tree.prems(3) by (simp add: na_def)
    have kd1: "list_all2 (repr_on st1 A) (kids s) ts"
      using kd
    proof (rule list_all2_mono)
      fix d t' assume "repr_on st A d t'"
      then show "repr_on st1 A d t'"
      proof (rule repr_on_frame)
        fix b assume "b \<in> A" "b < length st"
        then show "node st1 b = node st b"
          using old1 [of b] Tree.prems(4) l1 by (auto simp: node_def na_def)
      qed
    qed
    have loop: "\<exists>st'. returns (\<lambda>k. copy_aggregate_loop k st1 (Some na) src 0 (length ts)) st'
          \<and> length st1 \<le> length st' \<and> (\<forall>a<length st1. a \<noteq> na \<longrightarrow> st' ! a = st1 ! a)
          \<and> (\<exists>ds'. st' ! na = (st1 ! na)\<lparr>s_children := ds'\<rparr>
               \<and> list_all2 (repr_on st' {na<..<length st'}) ds' (map (clone_of (ty = TypeGroup)) ts))"
    proof (rule loop_total [where nm = nm and fmt = fmt and v = v and A = A and s = s])
      show "copy_ok st' q' pn' src' t'"
        if "t' \<in> set ts" "repr_on st' A' src' t'" "copyable t'" "\<forall>a\<in>A'. a < length st'" "q' \<notin> A'"
          "node st' q' = Some pn'" "can_add st' pn' (t_name t') (t_type t')"
        for t' st' A' src' q' pn'
        using that by (rule Tree.IH)
      show "copyable (Tree nm ty fmt v ts)"
        by (rule Tree.prems(2))
      show "is_aggregate_type ty"
        by (rule True)
      show "\<forall>a\<in>A. a < na"
        by (rule bound)
      show "src \<in> A"
        by (rule srcA)
      show "s_type s = ty"
        by (rule fields(2))
      show "na < length st1"
        using l1 by simp
      show "s_type (st1 ! na) = ty"
        by (simp add: n1 nn_def)
      show "list_all2 (repr_on st1 {na<..<length st1}) (s_children (st1 ! na))
          (map (clone_of (ty = TypeGroup)) (take 0 ts))"
        by (simp add: n1 nn_def)
      show "node st1 src = Some s"
        by (rule s1)
      show "list_all2 (repr_on st1 A) (kids s) ts"
        by (rule kd1)
      show "0 \<le> length ts"
        by simp
    qed
    then obtain st' ds' where run: "returns (\<lambda>k. copy_aggregate_loop k st1 (Some na) src 0 (length ts)) st'"
      and l2: "length st1 \<le> length st'"
      and f2: "\<forall>a<length st1. a \<noteq> na \<longrightarrow> st' ! a = st1 ! a"
      and q2: "st' ! na = nn\<lparr>s_children := ds'\<rparr>"
      and r2: "list_all2 (repr_on st' {na<..<length st'}) ds' (map (clone_of (ty = TypeGroup)) ts)"
      unfolding n1 by blast
    have n: "config_setting_length s = length ts"
      using kd by (simp add: config_setting_length_def list_all2_lengthD)
    have "config_setting_copy_aggregate (Suc k) st (Some q) src
        = copy_aggregate_loop k st1 (Some na) src 0 (length ts)" for k
      using s add s1 n by simp
    then have ragg: "returns (\<lambda>k. config_setting_copy_aggregate k st (Some q) src) st'"
      by (rule returns_Suc [OF run])
    have "config_setting_copy_simple (Suc k) st (Some q) src
        = config_setting_copy_aggregate k st (Some q) src" for k
      using s ag by simp
    then have rsimple: "returns (\<lambda>k. config_setting_copy_simple k st (Some q) src) st'"
      by (rule returns_Suc [OF ragg])
    have "config_setting_copy_elem (Suc k) st (Some q) src
        = config_setting_copy_aggregate k st (Some q) src" for k
      using s ag by simp
    then have relem: "returns (\<lambda>k. config_setting_copy_elem k st (Some q) src) st'"
      by (rule returns_Suc [OF ragg])
    have nd: "node st' na = Some (nn\<lparr>s_children := ds'\<rparr>)"
      using q2 l1 l2 by (simp add: node_def)
    have kn: "kids (nn\<lparr>s_children := ds'\<rparr>) = ds'"
      using True by (simp add: kids_def nn_def aggregate_type_iff)
    have "list_all2 (repr_on st' {na..<length st'}) ds' (map (clone_of (ty = TypeGroup)) ts)"
      using r2
    proof (rule list_all2_mono)
      fix d t' assume "repr_on st' {na<..<length st'} d t'"
      then show "repr_on st' {na..<length st'} d t'"
        by (rule repr_on_mono) auto
    qed
    then have "repr_on st' {na..<length st'} na
        (Tree (s_name (nn\<lparr>s_children := ds'\<rparr>)) (s_type (nn\<lparr>s_children := ds'\<rparr>))
           (s_format (nn\<lparr>s_children := ds'\<rparr>)) (s_value (nn\<lparr>s_children := ds'\<rparr>))
           (map (clone_of (ty = TypeGroup)) ts))"
      using nd kn l1 l2 by (intro repr_on.intros) simp_all
    moreover have "ty \<noteq> TypeInt \<and> ty \<noteq> TypeInt64"
      using True by (auto simp: is_aggregate_type_def)
    ultimately have rp: "repr_on st' {na..<length st'} na (clone_of ?g ?t)"
      using v by (simp add: nn_def)
    have "st' ! q = pn\<lparr>s_children := s_children pn @ [na]\<rparr>"
      using f2 q q1 l1 by (simp add: na_def)
    moreover have "\<forall>a<length st. a \<noteq> q \<longrightarrow> st' ! a = st ! a"
      using f2 old1 l1 by (simp add: na_def)
    moreover have "length st < length st'"
      using l1 l2 by (simp add: na_def)
    ultimately have "copied st q pn (clone_of ?g ?t) st'"
      using rp unfolding copied_def na_def by blast
    then show ?thesis
      unfolding copy_ok_def using ragg rsimple relem by blast
  qed
qed


subsection \<open>The run of \<open>config_setting_copy\<close> and the example store\<close>


lemma copy_returns:
  assumes r: "repr st src t" and cp: "copyable t" and p: "node st parent = Some p"
    and gl: "config_setting_is_group p \<or> config_setting_is_list p"
    and ca: "can_add st p (t_name t) (t_type t)" and na: "parent \<notin> reach st src"
  shows "\<exists>fuel0 st'. (\<forall>fuel\<ge>fuel0. config_setting_copy fuel st parent src = Some (True, st'))
     \<and> copied st parent p (clone_of (config_setting_is_group p) t) st'"
proof -
  have ro: "repr_on st (reach st src) src t"
    using r by (rule repr_reach)
  have v: "\<forall>a\<in>reach st src. a < length st"
    by (auto dest: reach_valid)
  have ok: "copy_ok st parent p src t"
    by (rule copy_total [OF ro cp v na p ca])
  obtain s where s: "node st src = Some s" and ty: "s_type s = t_type t"
    using r by (auto elim!: repr.cases)
  have ag: "config_setting_is_aggregate s \<longleftrightarrow> is_aggregate_type (t_type t)"
    using ty by (simp add: aggregate_type_iff)
  have "\<exists>st'. returns (\<lambda>k. if config_setting_is_aggregate s
                then config_setting_copy_aggregate k st (Some parent) src
                else config_setting_copy_simple k st (Some parent) src) st'
          \<and> copied st parent p (clone_of (config_setting_is_group p) t) st'"
    using ok ag unfolding copy_ok_def by (cases "config_setting_is_aggregate s") auto
  then obtain st' k0 where k0: "\<forall>k\<ge>k0. (if config_setting_is_aggregate s
                then config_setting_copy_aggregate k st (Some parent) src
                else config_setting_copy_simple k st (Some parent) src) = Some st'"
    and c: "copied st parent p (clone_of (config_setting_is_group p) t) st'"
    unfolding returns_def by blast
  have "config_setting_copy k st parent src = Some (True, st')" if "k0 \<le> k" for k
    using k0 that p gl s by (simp add: config_setting_copy_def)
  then show ?thesis
    using c by blast
qed

lemma copy_frame:
  assumes c: "config_setting_copy fuel st parent src = Some (r, st')"
  shows "grown (Some parent) st st'"
proof -
  obtain p where p: "node st parent = Some p"
    using c by (auto simp: config_setting_copy_def split: option.splits)
  show ?thesis
  proof (cases "\<not> config_setting_is_group p \<and> \<not> config_setting_is_list p")
    case True
    then have "st' = st"
      using c p by (simp add: config_setting_copy_def)
    then show ?thesis
      by (simp add: grown_refl)
  next
    case False
    then obtain s where s: "node st src = Some s"
      and run: "(if config_setting_is_aggregate s
                  then config_setting_copy_aggregate fuel st (Some parent) src
                  else config_setting_copy_simple fuel st (Some parent) src) = Some st'"
      using c p by (auto simp: config_setting_copy_def split: option.splits)
    then show ?thesis
      using copy_grown [of fuel st "Some parent" src st'] by (auto split: if_splits)
  qed
qed

lemma grown_source:
  assumes g: "grown (Some parent) st st'" and na: "parent \<notin> reach st src"
  shows "\<forall>a\<in>reach st src. node st' a = node st a" and "repr st src t \<Longrightarrow> repr st' src t"
proof -
  show same: "\<forall>a\<in>reach st src. node st' a = node st a"
  proof
    fix a assume a: "a \<in> reach st src"
    then have "a < length st" "Some parent \<noteq> Some a"
      using na by (auto dest: reach_valid)
    then show "node st' a = node st a"
      using grown_frame [OF g] by blast
  qed
  assume "repr st src t"
  then have "repr_on st (reach st src) src t"
    by (rule repr_reach)
  then have "repr_on st' (reach st src) src t"
    by (rule repr_on_frame) (use same in blast)
  then show "repr st' src t"
    by (rule repr_on_repr)
qed

lemma well_formed_clone:
  "well_formed t \<Longrightarrow> clone_of named t = (if named then t else unnamed t)"
proof (induction t arbitrary: named)
  case (Tree nm ty fmt v ts)
  have "clone_of (ty = TypeGroup) k = k" if k: "k \<in> set ts" for k
  proof -
    have wf: "well_formed k"
      using Tree.prems k by (simp add: list_all_iff)
    have e: "clone_of (ty = TypeGroup) k = (if ty = TypeGroup then k else unnamed k)"
      using Tree.IH [OF k wf] .
    have "unnamed k = k" if "ty \<noteq> TypeGroup"
    proof -
      have "t_name k = None"
        using Tree.prems k that by (simp add: list_all_iff)
      then show ?thesis
        by (cases k) (simp add: unnamed_def)
    qed
    then show ?thesis
      using e by simp
  qed
  then have "map (clone_of (ty = TypeGroup)) ts = ts"
    by (simp add: map_idI)
  moreover have "(if ty = TypeInt \<or> ty = TypeInt64 then fmt else FormatDefault) = fmt"
    using Tree.prems by (auto split: if_splits)
  ultimately show ?case
    by (simp add: unnamed_def)
qed

lemma well_formed_copyable: "well_formed t \<Longrightarrow> copyable t"
  by (cases t) simp

lemma copied_child:
  assumes "copied st q pn t st'" and "config_setting_is_aggregate pn"
  shows "kids (st' ! q) = kids pn @ [length st]" and "repr st' (length st) t"
  using assms repr_on_repr
  by (auto simp: copied_def kids_def config_setting_is_aggregate_def)


lemma clone_of_kids: "t_kids (clone_of named t) = map (clone_of (t_type t = TypeGroup)) (t_kids t)"
  by (cases t) simp

lemma repr_iff:
  "repr st a (Tree nm ty fmt v ts) \<longleftrightarrow>
     a < length st \<and> s_name (st ! a) = nm \<and> s_type (st ! a) = ty \<and> s_format (st ! a) = fmt
     \<and> s_value (st ! a) = v \<and> list_all2 (repr st) (kids (st ! a)) ts"
  by (auto elim!: repr.cases intro!: repr.intros simp: node_Some)

lemmas demo_defs =
  demo_store_def demo_app_def demo_port_def demo_items_def kids_def
  config_setting_is_aggregate_def config_setting_is_group_def config_setting_is_list_def
  config_setting_is_array_def

lemma demo_repr: "repr demo_store 1 demo_app" "repr demo_store 2 demo_port"
  by (simp_all add: repr_iff demo_defs)

lemma demo_well_formed: "well_formed demo_app" "well_formed demo_port"
  by (simp_all add: demo_defs is_scalar_type_def)

lemma demo_reach: "reach demo_store 1 \<subseteq> {1, 2, 3, 4, 5}" "reach demo_store 2 \<subseteq> {2}"
  by (rule reach_closed; auto simp: demo_defs)+

lemma demo_parents:
  "node demo_store 6 = Some (demo_store ! 6)" "node demo_store 7 = Some (demo_store ! 7)"
  "node demo_store 8 = Some (demo_store ! 8)" "node demo_store 2 = Some (demo_store ! 2)"
  by (simp_all add: node_def demo_store_def)

lemma demo_can_add:
  "can_add demo_store (demo_store ! 6) (Some ''app'') TypeGroup"
  "can_add demo_store (demo_store ! 7) (Some ''app'') TypeGroup"
  "can_add demo_store (demo_store ! 7) (Some ''port'') TypeInt"
  by (simp_all add: can_add_def child_settings_def demo_defs)

lemma demo_kinds:
  "config_setting_is_group (demo_store ! 6)" "config_setting_is_list (demo_store ! 7)"
  "\<not> config_setting_is_group (demo_store ! 7)"
  "\<not> config_setting_is_group (demo_store ! 8)" "\<not> config_setting_is_list (demo_store ! 8)"
  "\<not> config_setting_is_group (demo_store ! 2)" "\<not> config_setting_is_list (demo_store ! 2)"
  "kids (demo_store ! 6) = []" "kids (demo_store ! 7) = []" "length demo_store = 9"
  by (simp_all add: demo_defs)

lemma demo_tree_sel:
  "t_name demo_app = Some ''app''" "t_type demo_app = TypeGroup"
  "t_name demo_port = Some ''port''" "t_type demo_port = TypeInt"
  "t_kids demo_app = [demo_port, demo_items]"
  by (simp_all add: demo_defs)

lemma demo_apart: "6 \<notin> reach demo_store 1" "7 \<notin> reach demo_store 1" "7 \<notin> reach demo_store 2"
  using demo_reach by auto


lemma demo_copy_port: "config_setting_copy 1 demo_store 7 2 = Some (True, demo_port_in_lst)"
proof -
  have "config_setting_copy_simple (Suc 0) demo_store (Some 7) 2 = Some demo_port_in_lst"
    by (simp add: demo_port_in_lst_def demo_defs node_def config_setting_add_def can_add_def
        child_settings_def new_child_def default_value_def config_setting_set_int_def
        set_value_def config_setting_get_int_def config_setting_set_format_def)
  moreover have "\<not> config_setting_is_aggregate (demo_store ! 2)"
    by (simp add: demo_defs)
  ultimately show ?thesis
    by (simp add: config_setting_copy_def demo_parents demo_kinds
        del: config_setting_copy_simple.simps)
qed


section \<open>The copier: the claims\<close>

subsection \<open>Claim C1: the copy creates a clone of the source\<close>

text \<open>
  C1. Let the subtree below \<open>src\<close> be the well-formed tree \<open>t\<close>, and let \<open>parent\<close> be a
  group or a list that takes a new child of the name and type of \<open>t\<close> and that does not lie
  in the subtree below \<open>src\<close>. Then \<open>config_setting_copy\<close> returns true, for every fuel
  from some bound on and with the same store. In that store \<open>parent\<close> has one new last
  child; the subtree below it is \<open>t\<close>, node by node with the same type, name, value, format
  and order of children, except that under a list the root of the clone has no name. The
  subtree below \<open>src\<close> is still \<open>t\<close>.
\<close>

theorem copy_creates_clone:
  assumes "repr st src t" and "well_formed t" and "node st parent = Some p"
    and "accepts st p t" and "parent \<notin> reach st src"
  shows "\<exists>fuel0 st'. (\<forall>fuel\<ge>fuel0. config_setting_copy fuel st parent src = Some (True, st'))
      \<and> kids (st' ! parent) = kids p @ [length st]
      \<and> repr st' (length st) (if config_setting_is_group p then t else unnamed t)
      \<and> repr st' src t"
proof -
  have gl: "config_setting_is_group p \<or> config_setting_is_list p"
    and ca: "can_add st p (t_name t) (t_type t)"
    using assms(4) by (simp_all add: accepts_def)
  obtain fuel0 st' where run: "\<forall>fuel\<ge>fuel0. config_setting_copy fuel st parent src = Some (True, st')"
    and c: "copied st parent p (clone_of (config_setting_is_group p) t) st'"
    using copy_returns [OF assms(1) well_formed_copyable [OF assms(2)] assms(3) gl ca assms(5)]
    by blast
  have ag: "config_setting_is_aggregate p"
    using ca by (rule can_add_aggregate)
  have "config_setting_copy fuel0 st parent src = Some (True, st')"
    using run by simp
  then have "grown (Some parent) st st'"
    by (rule copy_frame)
  then have "repr st' src t"
    using assms(5) assms(1) by (rule grown_source(2))
  moreover have "repr st' (length st) (if config_setting_is_group p then t else unnamed t)"
    using copied_child(2) [OF c ag] well_formed_clone [OF assms(2)] by simp
  ultimately show ?thesis
    using run copied_child(1) [OF c ag] by blast
qed

theorem copy_creates_clone_witness:
  "repr demo_store 1 demo_app \<and> well_formed demo_app
   \<and> accepts demo_store (demo_store ! 6) demo_app \<and> accepts demo_store (demo_store ! 7) demo_app
   \<and> 6 \<notin> reach demo_store 1 \<and> 7 \<notin> reach demo_store 1
   \<and> (\<exists>fuel st'. config_setting_copy fuel demo_store 6 1 = Some (True, st')
         \<and> kids (st' ! 6) = [9] \<and> repr st' 9 demo_app \<and> repr st' 1 demo_app)
   \<and> (\<exists>fuel st'. config_setting_copy fuel demo_store 7 1 = Some (True, st')
         \<and> kids (st' ! 7) = [9] \<and> repr st' 9 (unnamed demo_app) \<and> repr st' 1 demo_app)"
proof -
  have a6: "accepts demo_store (demo_store ! 6) demo_app"
    and a7: "accepts demo_store (demo_store ! 7) demo_app"
    by (simp_all add: accepts_def demo_kinds demo_can_add demo_tree_sel)
  have "\<exists>fuel st'. config_setting_copy fuel demo_store 6 1 = Some (True, st')
         \<and> kids (st' ! 6) = [9] \<and> repr st' 9 demo_app \<and> repr st' 1 demo_app"
    using copy_creates_clone [OF demo_repr(1) demo_well_formed(1) demo_parents(1) a6 demo_apart(1)]
    by (auto simp: demo_kinds)
  moreover have "\<exists>fuel st'. config_setting_copy fuel demo_store 7 1 = Some (True, st')
         \<and> kids (st' ! 7) = [9] \<and> repr st' 9 (unnamed demo_app) \<and> repr st' 1 demo_app"
    using copy_creates_clone [OF demo_repr(1) demo_well_formed(1) demo_parents(2) a7 demo_apart(2)]
    by (auto simp: demo_kinds)
  ultimately show ?thesis
    using a6 a7 demo_repr(1) demo_well_formed(1) demo_apart by blast
qed

text \<open>
  The claim as stated fails for a list as destination: the integer \<open>port\<close>, copied into
  the list \<open>lst\<close>, arrives without its name.
\<close>

theorem copy_into_list_counterexample:
  "config_setting_is_list (demo_store ! 7) \<and> repr demo_store 2 demo_port
   \<and> config_setting_copy 1 demo_store 7 2 = Some (True, demo_port_in_lst)
   \<and> kids (demo_port_in_lst ! 7) = [9]
   \<and> s_name (demo_store ! 2) = Some ''port'' \<and> s_name (demo_port_in_lst ! 9) = None
   \<and> \<not> repr demo_port_in_lst 9 demo_port"
proof -
  have "kids (demo_port_in_lst ! 7) = [9]" "s_name (demo_port_in_lst ! 9) = None"
    "s_name (demo_store ! 2) = Some ''port''"
    by (simp_all add: demo_port_in_lst_def demo_defs nth_append)
  moreover have "\<not> repr demo_port_in_lst 9 demo_port"
    by (simp add: repr_iff demo_port_in_lst_def demo_defs nth_append)
  ultimately show ?thesis
    using demo_repr(2) demo_kinds(2) demo_copy_port by simp
qed

subsection \<open>Claim C2: the guard of \<open>config_setting_copy\<close>\<close>



subsection \<open>Claim C3: the children are copied by the kind of the source\<close>

text \<open>
  C3. In the loop of \<open>config_setting_copy_aggregate\<close> the child is copied by
  \<open>config_setting_copy_simple\<close> when the source is a group and by
  \<open>config_setting_copy_elem\<close> when it is a list or an array. For a copyable aggregate
  source the run returns, and the children of the new aggregate are, in order, the clones
  of the children of the source: with their names when the source is a group, and so at
  every depth below a group; without a name when it is a list or an array.
\<close>

theorem copy_aggregate_dispatch:
  assumes "repr st src t" and "copyable t" and "is_aggregate_type (t_type t)"
    and "node st parent = Some p" and "can_add st p (t_name t) (t_type t)"
    and "parent \<notin> reach st src"
  shows "(\<forall>k newAgg s i n child.
            node st src = Some s \<and> i < n \<and> config_setting_get_elem s i = Some child \<longrightarrow>
            copy_aggregate_loop (Suc k) st newAgg src i n =
              (case (if config_setting_is_group s
                     then config_setting_copy_simple k st newAgg child
                     else config_setting_copy_elem k st newAgg child) of
                 None \<Rightarrow> None
               | Some st1 \<Rightarrow> copy_aggregate_loop k st1 newAgg src (i + 1) n))
       \<and> (\<exists>fuel0 st'.
            (\<forall>fuel\<ge>fuel0. config_setting_copy_aggregate fuel st (Some parent) src = Some st')
            \<and> kids (st' ! parent) = kids p @ [length st]
            \<and> s_type (st' ! length st) = t_type t
            \<and> list_all2
                 (\<lambda>c k. repr st' c (clone_of (t_type t = TypeGroup) k)
                    \<and> s_name (st' ! c) = (if t_type t = TypeGroup then t_name k else None))
                 (kids (st' ! length st)) (t_kids t))"
proof -
  have ro: "repr_on st (reach st src) src t"
    using assms(1) by (rule repr_reach)
  have v: "\<forall>a\<in>reach st src. a < length st"
    by (auto dest: reach_valid)
  have "copy_ok st parent p src t"
    by (rule copy_total [OF ro assms(2) v assms(6) assms(4) assms(5)])
  then obtain fuel0 st' where
    run: "\<forall>fuel\<ge>fuel0. config_setting_copy_aggregate fuel st (Some parent) src = Some st'"
    and c: "copied st parent p (clone_of (config_setting_is_group p) t) st'"
    using assms(3) unfolding copy_ok_def returns_def by blast
  let ?B = "{length st..<length st'}"
  have rc: "repr_on st' ?B (length st) (clone_of (config_setting_is_group p) t)"
    using c by (simp add: copied_def)
  have ks: "list_all2 (repr_on st' ?B) (kids (st' ! length st))
      (map (clone_of (t_type t = TypeGroup)) (t_kids t))"
    using repr_on_node_at(7) [OF rc] by (simp add: clone_of_kids)
  have "list_all2
         (\<lambda>c k. repr st' c (clone_of (t_type t = TypeGroup) k)
            \<and> s_name (st' ! c) = (if t_type t = TypeGroup then t_name k else None))
         (kids (st' ! length st)) (t_kids t)"
    using ks unfolding list_all2_map2
  proof (rule list_all2_mono)
    fix c k assume h: "repr_on st' ?B c (clone_of (t_type t = TypeGroup) k)"
    show "repr st' c (clone_of (t_type t = TypeGroup) k)
        \<and> s_name (st' ! c) = (if t_type t = TypeGroup then t_name k else None)"
      using repr_on_repr [OF h] repr_on_node_at(3) [OF h] by simp
  qed
  moreover have "s_type (st' ! length st) = t_type t"
    using repr_on_node_at(4) [OF rc] by simp
  moreover have "kids (st' ! parent) = kids p @ [length st]"
    using copied_child(1) [OF c can_add_aggregate [OF assms(5)]] .
  moreover have "copy_aggregate_loop (Suc k) st newAgg src i n =
      (case (if config_setting_is_group s
             then config_setting_copy_simple k st newAgg child
             else config_setting_copy_elem k st newAgg child) of
         None \<Rightarrow> None
       | Some st1 \<Rightarrow> copy_aggregate_loop k st1 newAgg src (i + 1) n)"
    if "node st src = Some s \<and> i < n \<and> config_setting_get_elem s i = Some child"
    for k newAgg s i n child
    using that by simp
  ultimately show ?thesis
    using run by blast
qed

theorem copy_aggregate_dispatch_witness:
  "repr demo_store 1 demo_app \<and> copyable demo_app \<and> is_aggregate_type (t_type demo_app)
   \<and> can_add demo_store (demo_store ! 7) (t_name demo_app) (t_type demo_app)
   \<and> 7 \<notin> reach demo_store 1
   \<and> (\<exists>fuel st' c d. config_setting_copy_aggregate fuel demo_store (Some 7) 1 = Some st'
        \<and> kids (st' ! 7) = [9] \<and> s_type (st' ! 9) = TypeGroup \<and> kids (st' ! 9) = [c, d]
        \<and> s_name (st' ! c) = Some ''port'' \<and> s_name (st' ! d) = Some ''items''
        \<and> repr st' c demo_port \<and> repr st' d demo_items)"
proof -
  have cp: "copyable demo_app"
    by (rule well_formed_copyable [OF demo_well_formed(1)])
  have ag: "is_aggregate_type (t_type demo_app)"
    by (simp add: demo_tree_sel is_aggregate_type_def)
  have ca: "can_add demo_store (demo_store ! 7) (t_name demo_app) (t_type demo_app)"
    by (simp add: demo_tree_sel demo_can_add)
  have cl: "clone_of True demo_port = demo_port" "clone_of True demo_items = demo_items"
    by (simp_all add: demo_defs)
  obtain fuel0 st' where
    run: "\<forall>fuel\<ge>fuel0. config_setting_copy_aggregate fuel demo_store (Some 7) 1 = Some st'"
    and k7: "kids (st' ! 7) = [9]" and ty: "s_type (st' ! 9) = TypeGroup"
    and ks: "list_all2 (\<lambda>c k. repr st' c (clone_of True k) \<and> s_name (st' ! c) = t_name k)
        (kids (st' ! 9)) [demo_port, demo_items]"
    using copy_aggregate_dispatch [OF demo_repr(1) cp ag demo_parents(2) ca demo_apart(2)]
    by (auto simp: demo_kinds demo_tree_sel)
  obtain c d where "kids (st' ! 9) = [c, d]" "repr st' c demo_port" "repr st' d demo_items"
    "s_name (st' ! c) = Some ''port''" "s_name (st' ! d) = Some ''items''"
    using ks cl by (auto simp: list_all2_Cons2 demo_tree_sel demo_items_def)
  then have "\<exists>fuel st' c d. config_setting_copy_aggregate fuel demo_store (Some 7) 1 = Some st'
        \<and> kids (st' ! 7) = [9] \<and> s_type (st' ! 9) = TypeGroup \<and> kids (st' ! 9) = [c, d]
        \<and> s_name (st' ! c) = Some ''port'' \<and> s_name (st' ! d) = Some ''items''
        \<and> repr st' c demo_port \<and> repr st' d demo_items"
    using run k7 ty by blast
  then show ?thesis
    using demo_repr(1) cp ag ca demo_apart(2) by blast
qed

subsection \<open>Claim C10: the source subtree is left unchanged\<close>



end
